theory Spec2Isabelle
  imports Main "HOL-Library.AList"
begin

section \<open>TTSCacheService: data model\<close>

text \<open>
  The service is a class of static fields and static methods. The fields become one
  record, every method a function that takes the record and returns the new one.
  JavaScript \<open>Map\<close>s keep their keys in insertion order, and the eviction loop reads
  the cache in that order, so every \<open>Map\<close> is an association list:
  \<open>Map.set\<close> is \<open>AList.update\<close> (replace in place, or append),
  \<open>Map.delete\<close> is \<open>AList.delete\<close>, \<open>Map.get\<close> is \<open>map_of\<close>.
\<close>

text \<open>
  The result of a generation call has type \<open>any\<close>. The code looks at such a value
  in three ways only: it compares it with \<open>null\<close>, it tests its truthiness, and it
  takes the length of \<open>JSON.stringify\<close> of it. The value \<open>null\<close> is
  \<open>None\<close>; every other value is an \<open>artifact\<close> carrying its content and the
  two observations. \<open>stringifyLength\<close> is \<open>None\<close> where
  \<open>JSON.stringify(obj).length\<close> throws (a cyclic object, or \<open>undefined\<close>).
\<close>

record artifact =
  payload :: string
  truthy :: bool
  stringifyLength :: "nat option"

datatype Status = Pending | Completed | Error

text \<open>
  A promise is named by the index of the generation call behind it (see \<open>calls\<close>
  below). The optional field \<open>result\<close> is \<open>None\<close> where the object literal
  leaves it out.
\<close>

record CacheItem =
  promise :: nat
  result :: "artifact option"
  timestamp :: int
  size_bytes :: int
  status :: Status

record settings =
  s_service :: string
  s_language :: string
  s_voice :: string

record stats =
  currentItems :: int
  st_maxItems :: int
  st_currentSize :: int
  st_maxSize :: int

datatype log_entry = Warn string | LogError string

text \<open>
  A call of \<open>ttsFn\<close> returns a promise, or throws before it returns one: the type
  \<open>TTSFn\<close> excludes neither. Which of the two happens is decided by the function
  that was configured, so it is a parameter of every method that may call it.
\<close>

datatype tts_call = Returns | Throws

text \<open>
  The raw promise of a call that returned one resolves with a value (possibly
  \<open>null\<close>) or rejects; \<open>GenTimeout\<close> is the timer of \<open>withTimeout\<close>
  firing first. A promise is settled as fulfilled with a value, or as rejected.
\<close>

datatype gen_outcome = GenResolve "artifact option" | GenReject | GenTimeout

datatype settled = Fulfilled "artifact option" | Rejected

text \<open>
  One record per invocation of \<open>ttsFn\<close>. \<open>Chained\<close> is a call made by
  \<open>preloadWithSettings\<close>, whose promise is
  \<open>withTimeout(...).then(...).catch(...)\<close>; \<open>Direct\<close> is the call made by
  \<open>requestTTS\<close> itself, whose promise is the bare \<open>withTimeout(...)\<close>.
  \<open>c_settled\<close> is the state of that promise. \<open>Threw\<close> is a call that threw
  before it returned a promise: it has no promise, and nothing ever settles.
\<close>

datatype call_kind = Chained | Direct | Threw

record gen_call =
  c_kind :: call_kind
  c_fn :: nat
  c_service :: string
  c_language :: string
  c_voice :: string
  c_text :: string
  c_settled :: "settled option"

text \<open>
  An invocation of the async function \<open>requestTTS\<close> is suspended at one of its
  three \<open>await\<close>s, or has returned, or has thrown (its promise is rejected).
\<close>

datatype task =
    AtBarrier string string string string "nat list"
  | AwaitItem nat
  | AwaitDirect nat string
  | Returned "artifact option"
  | Thrown

text \<open>
  The static fields of the class, followed by what the class runs in: the generation
  calls made so far, the invocations of \<open>requestTTS\<close>, and the console.
  \<open>ttsFn\<close> is a handle for the configured function; the field has no initializer
  and is read only after \<open>initialize\<close> has assigned it.
\<close>

record state =
  sessionSettings :: "(string \<times> settings) list"
  has_instance :: bool
  initialized :: bool
  ttsFn :: nat
  timeoutMs :: int
  maxSize :: int
  maxItems :: int
  cache :: "(string \<times> CacheItem) list"
  currentSize :: int
  sessionQueues :: "(string \<times> string list) list"
  pendingPromises :: "(string \<times> nat) list"
  calls :: "gen_call list"
  tasks :: "task list"
  console :: "log_entry list"

definition initial_state :: state where
  "initial_state =
     \<lparr> sessionSettings = [], has_instance = False, initialized = False, ttsFn = 0,
       timeoutMs = 5000, maxSize = 10 * 1024 * 1024, maxItems = 100,
       cache = [], currentSize = 0, sessionQueues = [], pendingPromises = [],
       calls = [], tasks = [], console = [] \<rparr>"

definition warn :: "string \<Rightarrow> state \<Rightarrow> state" where
  "warn msg s = s\<lparr>console := console s @ [Warn msg]\<rparr>"

definition log_error :: "string \<Rightarrow> state \<Rightarrow> state" where
  "log_error msg s = s\<lparr>console := console s @ [LogError msg]\<rparr>"

section \<open>Configuration, reset, statistics\<close>

definition initialize :: "nat \<Rightarrow> int \<Rightarrow> int \<Rightarrow> int \<Rightarrow> state \<Rightarrow> state" where
  "initialize ttsServiceFn maxCacheSize maxCacheItems requestTimeoutMs s =
     (let s1 = s\<lparr>ttsFn := ttsServiceFn, timeoutMs := requestTimeoutMs,
                  maxSize := maxCacheSize, maxItems := maxCacheItems,
                  initialized := True\<rparr>
      in if \<not> has_instance s1 then s1\<lparr>has_instance := True\<rparr> else s1)"

definition uninitialize :: "state \<Rightarrow> state" where
  "uninitialize s =
     s\<lparr>has_instance := False, initialized := False, cache := [], currentSize := 0,
       sessionQueues := [], sessionSettings := [], pendingPromises := []\<rparr>"

definition getCacheStats :: "state \<Rightarrow> stats \<times> state" where
  "getCacheStats s =
     (\<lparr> currentItems = int (length (cache s)), st_maxItems = maxItems s,
        st_currentSize = currentSize s, st_maxSize = maxSize s \<rparr>, s)"

section \<open>Keys and sizes\<close>

definition generateKey :: "string \<Rightarrow> string \<Rightarrow> string \<Rightarrow> string \<Rightarrow> string" where
  "generateKey service language voice text =
     service @ ''::'' @ language @ ''::'' @ voice @ ''::'' @ text"

definition estimateSize :: "artifact \<Rightarrow> int" where
  "estimateSize obj = (case stringifyLength obj of Some n \<Rightarrow> int n | None \<Rightarrow> 1000)"

section \<open>The cache: put and eviction\<close>

definition over_limits :: "state \<Rightarrow> bool" where
  "over_limits s \<longleftrightarrow> int (length (cache s)) > maxItems s \<or> currentSize s > maxSize s"

text \<open>
  The body of the eviction loop after the \<open>pending\<close> test: delete the entry,
  subtract its size, forget its promise, and splice the first occurrence of the key out
  of every session queue (\<open>indexOf\<close> and \<open>splice(index, 1)\<close>).
\<close>

definition evict :: "string \<Rightarrow> CacheItem \<Rightarrow> state \<Rightarrow> state" where
  "evict oldestKey oldestItem s =
     s\<lparr>cache := AList.delete oldestKey (cache s),
       currentSize := currentSize s - size_bytes oldestItem,
       pendingPromises := AList.delete oldestKey (pendingPromises s),
       sessionQueues := map (\<lambda>(sessionId, queue). (sessionId, remove1 oldestKey queue))
                            (sessionQueues s)\<rparr>"

text \<open>
  The \<open>while\<close> loop over the sorted snapshot \<open>entries\<close>; \<open>entries.shift()\<close>
  takes the head.
\<close>

fun evict_loop :: "(string \<times> CacheItem) list \<Rightarrow> state \<Rightarrow> state" where
  "evict_loop [] s = s"
| "evict_loop ((oldestKey, oldestItem) # entries) s =
     (if over_limits s
      then (if status oldestItem = Pending then evict_loop entries s
            else evict_loop entries (evict oldestKey oldestItem s))
      else s)"

text \<open>
  \<open>Array.prototype.sort\<close> is stable, and so is \<open>sort_key\<close>: entries of equal
  timestamp stay in the insertion order of the \<open>Map\<close>.
\<close>

definition enforceCacheLimits :: "state \<Rightarrow> state" where
  "enforceCacheLimits s =
     (if over_limits s then evict_loop (sort_key (\<lambda>e. timestamp (snd e)) (cache s)) s
      else s)"

definition setCacheItem :: "string \<Rightarrow> CacheItem \<Rightarrow> state \<Rightarrow> state" where
  "setCacheItem key item s =
     (let s1 = (case map_of (cache s) key of
                  Some oldItem \<Rightarrow> s\<lparr>currentSize := currentSize s - size_bytes oldItem\<rparr>
                | None \<Rightarrow> s);
          s2 = s1\<lparr>cache := AList.update key item (cache s1)\<rparr>;
          s3 = s2\<lparr>currentSize := currentSize s2 + size_bytes item\<rparr>
      in enforceCacheLimits s3)"

section \<open>Queries and session settings\<close>

definition result_truthy :: "CacheItem \<Rightarrow> bool" where
  "result_truthy item = (case result item of Some r \<Rightarrow> truthy r | None \<Rightarrow> False)"

definition hasCompletedItem :: "string \<Rightarrow> string \<Rightarrow> string \<Rightarrow> string \<Rightarrow> state \<Rightarrow> bool \<times> state" where
  "hasCompletedItem service language voice text s =
     (if \<not> initialized s
      then (False, warn ''TTSCacheService: Not initialized when checking for completed item'' s)
      else (case map_of (cache s) (generateKey service language voice text) of
              None \<Rightarrow> (False, s)
            | Some item \<Rightarrow> (status item = Completed \<and> result_truthy item, s)))"

definition hasPending :: "string \<Rightarrow> string \<Rightarrow> string \<Rightarrow> string \<Rightarrow> state \<Rightarrow> bool \<times> state" where
  "hasPending service language voice text s =
     (if \<not> initialized s
      then (False, warn ''TTSCacheService: Not initialized when checking for pending request'' s)
      else (case map_of (cache s) (generateKey service language voice text) of
              None \<Rightarrow> (False, s)
            | Some item \<Rightarrow> (status item = Pending, s)))"

definition setSessionSettings :: "string \<Rightarrow> string \<Rightarrow> string \<Rightarrow> string \<Rightarrow> state \<Rightarrow> state" where
  "setSessionSettings sessionId service language voice s =
     (if \<not> initialized s
      then warn ''TTSCacheService: Not initialized when setting session settings'' s
      else s\<lparr>sessionSettings :=
               AList.update sessionId
                 \<lparr>s_service = service, s_language = language, s_voice = voice\<rparr>
                 (sessionSettings s)\<rparr>)"

section \<open>Generation calls and their promises\<close>

definition has_key :: "('k \<times> 'v) list \<Rightarrow> 'k \<Rightarrow> bool" where
  "has_key m k \<longleftrightarrow> map_of m k \<noteq> None"

definition indexOf :: "'a list \<Rightarrow> 'a \<Rightarrow> int" where
  "indexOf xs x =
     (if x \<in> set xs then int (length (takeWhile (\<lambda>y. y \<noteq> x) xs)) else - 1)"

text \<open>
  \<open>withTimeout\<close> resolves with the value of the call, or with \<open>null\<close> when the
  call rejects or the timer fires first; it never rejects. (The warning of the source
  also names the duration.)
\<close>

definition withTimeout :: "gen_outcome \<Rightarrow> state \<Rightarrow> settled \<times> state" where
  "withTimeout outcome s =
     (case outcome of
        GenResolve r \<Rightarrow> (Fulfilled r, s)
      | GenReject \<Rightarrow> (Fulfilled None, log_error ''Error in TTS service:'' s)
      | GenTimeout \<Rightarrow> (Fulfilled None, warn ''TTS request timed out'' s))"

definition new_call :: "call_kind \<Rightarrow> string \<Rightarrow> string \<Rightarrow> string \<Rightarrow> string \<Rightarrow> state \<Rightarrow> state" where
  "new_call kind service language voice text s =
     s\<lparr>calls := calls s @
         [\<lparr>c_kind = kind, c_fn = ttsFn s, c_service = service, c_language = language,
           c_voice = voice, c_text = text, c_settled = None\<rparr>]\<rparr>"

definition error_item :: "nat \<Rightarrow> int \<Rightarrow> CacheItem" where
  "error_item p now =
     \<lparr>promise = p, result = None, timestamp = now, size_bytes = 0, status = Error\<rparr>"

definition completed_item :: "nat \<Rightarrow> artifact \<Rightarrow> int \<Rightarrow> CacheItem" where
  "completed_item p r now =
     \<lparr>promise = p, result = Some r, timestamp = now, size_bytes = estimateSize r,
      status = Completed\<rparr>"

definition pending_item :: "nat \<Rightarrow> int \<Rightarrow> CacheItem" where
  "pending_item p now =
     \<lparr>promise = p, result = None, timestamp = now, size_bytes = 0, status = Pending\<rparr>"

text \<open>
  The \<open>.then(...).catch(...)\<close> chain of \<open>preloadWithSettings\<close>, run when the
  promise of \<open>withTimeout\<close> has settled as \<open>wt\<close>: it returns how the chained
  promise \<open>p\<close> settles, and the state after the callback.
\<close>

definition chain_settled :: "string \<Rightarrow> nat \<Rightarrow> settled \<Rightarrow> int \<Rightarrow> state \<Rightarrow> settled \<times> state" where
  "chain_settled key p wt now s =
     (case wt of
        Fulfilled res \<Rightarrow>
          (case res of
             Some r \<Rightarrow> (Fulfilled (Some r), setCacheItem key (completed_item p r now) s)
           | None \<Rightarrow> (Fulfilled None, setCacheItem key (error_item p now) s))
      | Rejected \<Rightarrow> (Fulfilled None, setCacheItem key (error_item p now) s))"

text \<open>
  A method without a result returns, or an exception leaves it; either way it hands
  on the state it reached.
\<close>

datatype signal = Return | Throw

text \<open>
  In \<open>preloadWithSettings\<close> the argument \<open>ttsFn(service, language, voice, text)\<close>
  of \<open>withTimeout\<close> is evaluated first, under no \<open>try\<close>: when the call throws,
  the exception leaves the method before the promise chain is built and before any
  field of the class is assigned. The invocation is recorded in \<open>calls\<close>.
\<close>

definition preloadWithSettings :: "string \<Rightarrow> string \<Rightarrow> string \<Rightarrow> string \<Rightarrow> string \<Rightarrow> int \<Rightarrow> tts_call \<Rightarrow> state \<Rightarrow> signal \<times> state" where
  "preloadWithSettings service language voice text sessionId now tts s =
     (let key = generateKey service language voice text
      in if has_key (cache s) key then (Return, s)
         else
           (case tts of
              Throws \<Rightarrow> (Throw, new_call Threw service language voice text s)
            | Returns \<Rightarrow>
                let p = length (calls s);
                    s1 = new_call Chained service language voice text s;
                    s2 = s1\<lparr>pendingPromises := AList.update key p (pendingPromises s1)\<rparr>;
                    s3 = setCacheItem key (pending_item p now) s2;
                    s4 = (if \<not> has_key (sessionQueues s3) sessionId
                          then s3\<lparr>sessionQueues := AList.update sessionId [] (sessionQueues s3)\<rparr>
                          else s3)
                in (Return,
                    s4\<lparr>sessionQueues :=
                         AList.map_entry sessionId (\<lambda>queue. queue @ [key]) (sessionQueues s4)\<rparr>)))"

text \<open>An exception of \<open>preloadWithSettings\<close> leaves \<open>preloadTTS\<close> as well.\<close>

definition preloadTTS :: "string \<Rightarrow> string \<Rightarrow> int \<Rightarrow> tts_call \<Rightarrow> state \<Rightarrow> signal \<times> state" where
  "preloadTTS text sessionId now tts s =
     (if \<not> initialized s
      then (Return, warn ''TTSCacheService: Not initialized when preloading TTS'' s)
      else (case map_of (sessionSettings s) sessionId of
              None \<Rightarrow> (Return, warn ''[preloadTTS] No settings found for session'' s)
            | Some st \<Rightarrow>
                preloadWithSettings (s_service st) (s_language st) (s_voice st) text
                  sessionId now tts s))"

text \<open>
  The promises that \<open>waitForPrecedingItems\<close> hands to \<open>Promise.all\<close>, each
  wrapped in \<open>.catch(() => null)\<close>. They are collected when the function is called.
\<close>

definition waitForPrecedingItems :: "string \<Rightarrow> string \<Rightarrow> state \<Rightarrow> nat list" where
  "waitForPrecedingItems sessionId currentKey s =
     (let queue = (case map_of (sessionQueues s) sessionId of Some q \<Rightarrow> q | None \<Rightarrow> []);
          currentIndex = indexOf queue currentKey
      in if currentIndex \<le> 0 then []
         else
           let precedingKeys = take (nat currentIndex) queue
           in concat (map (\<lambda>key. case map_of (cache s) key of
                                    Some item \<Rightarrow> [promise item]
                                  | None \<Rightarrow> [])
                          precedingKeys))"

section \<open>requestTTS\<close>

text \<open>
  \<open>requestTTS\<close> up to its first \<open>await\<close>. The new invocation is the last
  element of \<open>tasks\<close>. The call of \<open>preloadWithSettings\<close> stands before the
  \<open>try\<close> of the function: an exception that leaves it rejects the promise of
  \<open>requestTTS\<close>, after the session settings and the queue of the session have been
  assigned.
\<close>

definition requestTTS :: "string \<Rightarrow> string \<Rightarrow> string \<Rightarrow> string \<Rightarrow> string \<Rightarrow> int \<Rightarrow> tts_call \<Rightarrow> state \<Rightarrow> state" where
  "requestTTS service language voice text sessionId now tts s =
     (if \<not> initialized s
      then (let s1 = warn ''TTSCacheService: Not initialized when requesting TTS'' s
            in s1\<lparr>tasks := tasks s1 @ [Returned None]\<rparr>)
      else
        let s1 = setSessionSettings sessionId service language voice s;
            key = generateKey service language voice text;
            s2 = (if \<not> has_key (sessionQueues s1) sessionId
                  then s1\<lparr>sessionQueues := AList.update sessionId [] (sessionQueues s1)\<rparr>
                  else s1);
            sessionQueue = (case map_of (sessionQueues s2) sessionId of
                              Some q \<Rightarrow> q | None \<Rightarrow> []);
            (sig, s3) = (if key \<notin> set sessionQueue
                         then preloadWithSettings service language voice text sessionId now tts s2
                         else (Return, s2))
        in (case sig of
              Throw \<Rightarrow> s3\<lparr>tasks := tasks s3 @ [Thrown]\<rparr>
            | Return \<Rightarrow>
                let waits = waitForPrecedingItems sessionId key s3
                in s3\<lparr>tasks := tasks s3 @ [AtBarrier service language voice text waits]\<rparr>))"

text \<open>
  A block of the function body completes normally with a value to return, or abruptly
  with an exception; \<open>try_catch\<close> runs the handler on the state the block left.
\<close>

datatype completion = Normal "artifact option" | Abrupt

definition try_catch :: "completion \<times> state \<Rightarrow> (state \<Rightarrow> completion \<times> state) \<Rightarrow> completion \<times> state" where
  "try_catch body handler =
     (case fst body of Normal v \<Rightarrow> body | Abrupt \<Rightarrow> handler (snd body))"

definition await_value :: "settled \<Rightarrow> state \<Rightarrow> completion \<times> state" where
  "await_value v s = (case v of Fulfilled r \<Rightarrow> (Normal r, s) | Rejected \<Rightarrow> (Abrupt, s))"

definition finish :: "nat \<Rightarrow> completion \<times> state \<Rightarrow> state" where
  "finish r c =
     (snd c)\<lparr>tasks := (tasks (snd c))
                [r := (case fst c of Normal v \<Rightarrow> Returned v | Abrupt \<Rightarrow> Thrown)]\<rparr>"

definition outer_catch :: "state \<Rightarrow> completion \<times> state" where
  "outer_catch s = (Normal None, log_error ''Error in requestTTS:'' s)"

definition inner_catch :: "state \<Rightarrow> completion \<times> state" where
  "inner_catch s = (Normal None, log_error ''Error in TTS request:'' s)"

definition settled_of :: "state \<Rightarrow> nat \<Rightarrow> settled option" where
  "settled_of s p = (if p < length (calls s) then c_settled (calls s ! p) else None)"

definition is_settled :: "state \<Rightarrow> nat \<Rightarrow> bool" where
  "is_settled s p \<longleftrightarrow> settled_of s p \<noteq> None"

text \<open>
  The code after the barrier, up to the next \<open>await\<close> or \<open>return\<close>. The direct
  call of \<open>ttsFn\<close> stands inside the outer \<open>try\<close> and before the inner one: when
  it throws, the outer handler runs.
\<close>

definition after_barrier :: "nat \<Rightarrow> string \<Rightarrow> string \<Rightarrow> string \<Rightarrow> string \<Rightarrow> tts_call \<Rightarrow> state \<Rightarrow> state" where
  "after_barrier r service language voice text tts s =
     (let key = generateKey service language voice text
      in case map_of (cache s) key of
           Some item \<Rightarrow>
             (if status item = Completed \<and> result_truthy item
              then finish r (Normal (result item), s)
              else s\<lparr>tasks := (tasks s)[r := AwaitItem (promise item)]\<rparr>)
         | None \<Rightarrow>
             (case tts of
                Throws \<Rightarrow>
                  finish r (try_catch (Abrupt, new_call Threw service language voice text s)
                              outer_catch)
              | Returns \<Rightarrow>
                  (let p = length (calls s);
                       s1 = new_call Direct service language voice text s
                   in s1\<lparr>tasks := (tasks s1)[r := AwaitDirect p key]\<rparr>)))"

text \<open>\<open>const result = await item.promise; return result;\<close> inside the outer \<open>try\<close>.\<close>

definition item_awaited :: "nat \<Rightarrow> settled \<Rightarrow> state \<Rightarrow> state" where
  "item_awaited r v s = finish r (try_catch (await_value v s) outer_catch)"

text \<open>The inner \<open>try\<close> around the direct call, inside the outer one.\<close>

definition direct_body :: "nat \<Rightarrow> string \<Rightarrow> settled \<Rightarrow> int \<Rightarrow> state \<Rightarrow> completion \<times> state" where
  "direct_body p key v now s =
     (case await_value v s of
        (Normal res, s1) \<Rightarrow>
          (case res of
             Some r \<Rightarrow> (Normal res, setCacheItem key (completed_item p r now) s1)
           | None \<Rightarrow> (Normal res, s1))
      | (Abrupt, s1) \<Rightarrow> (Abrupt, s1))"

definition direct_awaited :: "nat \<Rightarrow> nat \<Rightarrow> string \<Rightarrow> settled \<Rightarrow> int \<Rightarrow> state \<Rightarrow> state" where
  "direct_awaited r p key v now s =
     finish r (try_catch (try_catch (direct_body p key v now s) inner_catch) outer_catch)"

section \<open>Events\<close>

text \<open>
  The program is single-threaded: between two suspension points a method runs to its
  end. An event is a call of a public method, the settling of a generation call
  (\<open>Settle\<close>, which runs the callbacks chained on it), or the resumption of a
  suspended \<open>requestTTS\<close> (\<open>Resume\<close>, which does nothing while the awaited
  promises are unsettled). The integer of an event is the value \<open>Date.now()\<close>
  returns while it runs; its \<open>tts_call\<close> is what \<open>ttsFn\<close> does, should the
  event call it. Events may follow one another in any order. The runtime produces
  fewer orders (a request whose barrier is empty resumes before the callbacks of a
  generation call started in the same turn), so what holds of every sequence of events
  holds of every run of the program.
\<close>

definition set_settled :: "nat \<Rightarrow> settled \<Rightarrow> state \<Rightarrow> state" where
  "set_settled p v s = s\<lparr>calls := (calls s)[p := (calls s ! p)\<lparr>c_settled := Some v\<rparr>]\<rparr>"

definition settle :: "nat \<Rightarrow> gen_outcome \<Rightarrow> int \<Rightarrow> state \<Rightarrow> state" where
  "settle p outcome now s =
     (if p < length (calls s) \<and> c_settled (calls s ! p) = None
      then
        let c = calls s ! p;
            (wt, s1) = withTimeout outcome s
        in (case c_kind c of
              Chained \<Rightarrow>
                (let (v, s2) = chain_settled
                                 (generateKey (c_service c) (c_language c) (c_voice c) (c_text c))
                                 p wt now s1
                 in set_settled p v s2)
            | Direct \<Rightarrow> set_settled p wt s1
            | Threw \<Rightarrow> s)
      else s)"

definition resume :: "nat \<Rightarrow> int \<Rightarrow> tts_call \<Rightarrow> state \<Rightarrow> state" where
  "resume r now tts s =
     (if r < length (tasks s)
      then (case tasks s ! r of
              AtBarrier service language voice text waits \<Rightarrow>
                (if list_all (is_settled s) waits
                 then after_barrier r service language voice text tts s else s)
            | AwaitItem p \<Rightarrow>
                (case settled_of s p of None \<Rightarrow> s | Some v \<Rightarrow> item_awaited r v s)
            | AwaitDirect p key \<Rightarrow>
                (case settled_of s p of None \<Rightarrow> s | Some v \<Rightarrow> direct_awaited r p key v now s)
            | Returned v \<Rightarrow> s
            | Thrown \<Rightarrow> s)
      else s)"

datatype event =
    Initialize nat int int int
  | Uninitialize
  | GetCacheStats
  | HasCompletedItem string string string string
  | HasPending string string string string
  | SetSessionSettings string string string string
  | PreloadTTS string string int tts_call
  | RequestTTS string string string string string int tts_call
  | Settle nat gen_outcome int
  | Resume nat int tts_call

fun step :: "event \<Rightarrow> state \<Rightarrow> state" where
  "step (Initialize f maxCacheSize maxCacheItems requestTimeoutMs) s =
     initialize f maxCacheSize maxCacheItems requestTimeoutMs s"
| "step Uninitialize s = uninitialize s"
| "step GetCacheStats s = snd (getCacheStats s)"
| "step (HasCompletedItem service language voice text) s =
     snd (hasCompletedItem service language voice text s)"
| "step (HasPending service language voice text) s =
     snd (hasPending service language voice text s)"
| "step (SetSessionSettings sessionId service language voice) s =
     setSessionSettings sessionId service language voice s"
| "step (PreloadTTS text sessionId now tts) s = snd (preloadTTS text sessionId now tts s)"
| "step (RequestTTS service language voice text sessionId now tts) s =
     requestTTS service language voice text sessionId now tts s"
| "step (Settle p outcome now) s = settle p outcome now s"
| "step (Resume r now tts) s = resume r now tts s"

definition run :: "event list \<Rightarrow> state \<Rightarrow> state" where
  "run es s = fold step es s"

section \<open>Specification vocabulary\<close>

text \<open>The sum of the sizes of a list of entries.\<close>

definition cache_sum :: "(string \<times> CacheItem) list \<Rightarrow> int" where
  "cache_sum entries = sum_list (map (\<lambda>e. size_bytes (snd e)) entries)"

text \<open>
  The invariant of the cache: every key has one entry, and the aggregate counter is the
  sum of the sizes of the entries.
\<close>

definition size_inv :: "state \<Rightarrow> bool" where
  "size_inv s \<longleftrightarrow> distinct (map fst (cache s)) \<and> currentSize s = cache_sum (cache s)"

definition evictable :: "string \<times> CacheItem \<Rightarrow> bool" where
  "evictable e \<longleftrightarrow> status (snd e) \<noteq> Pending"

text \<open>The entries that are not pending, oldest first.\<close>

definition candidates :: "state \<Rightarrow> (string \<times> CacheItem) list" where
  "candidates s = filter evictable (sort_key (\<lambda>e. timestamp (snd e)) (cache s))"

text \<open>
  What removing a list of entries means: their keys leave the cache and the pending
  promises, their sizes leave the aggregate, and one occurrence of each key leaves
  every session queue.
\<close>

definition remove_entries :: "(string \<times> CacheItem) list \<Rightarrow> state \<Rightarrow> state" where
  "remove_entries victims s =
     s\<lparr>cache := filter (\<lambda>e. fst e \<notin> fst ` set victims) (cache s),
       currentSize := currentSize s - cache_sum victims,
       pendingPromises := filter (\<lambda>e. fst e \<notin> fst ` set victims) (pendingPromises s),
       sessionQueues := map (\<lambda>(sessionId, queue). (sessionId, fold remove1 (map fst victims) queue))
                            (sessionQueues s)\<rparr>"

text \<open>The three ways a generation call fails.\<close>

definition generation_failed :: "gen_outcome \<Rightarrow> bool" where
  "generation_failed outcome \<longleftrightarrow>
     outcome = GenReject \<or> outcome = GenTimeout \<or> outcome = GenResolve None"

text \<open>The key of a generation call, and how often a key has been generated.\<close>

definition call_key :: "gen_call \<Rightarrow> string" where
  "call_key c = generateKey (c_service c) (c_language c) (c_voice c) (c_text c)"

definition invocations :: "string \<Rightarrow> state \<Rightarrow> nat" where
  "invocations key s = count_list (map call_key (calls s)) key"

text \<open>
  An entry for the key is in the cache before every event of the list, and after the
  last one.
\<close>

fun cached_throughout :: "string \<Rightarrow> event list \<Rightarrow> state \<Rightarrow> bool" where
  "cached_throughout key [] s \<longleftrightarrow> has_key (cache s) key"
| "cached_throughout key (e # es) s \<longleftrightarrow>
     has_key (cache s) key \<and> cached_throughout key es (step e s)"

text \<open>
  The cache holds the entry \<open>item\<close> for the key before every event of the list,
  and after the last one.
\<close>

fun entry_throughout :: "string \<Rightarrow> CacheItem \<Rightarrow> event list \<Rightarrow> state \<Rightarrow> bool" where
  "entry_throughout key item [] s \<longleftrightarrow> map_of (cache s) key = Some item"
| "entry_throughout key item (e # es) s \<longleftrightarrow>
     map_of (cache s) key = Some item \<and> entry_throughout key item es (step e s)"

text \<open>
  The event is a call of \<open>requestTTS\<close> during which \<open>ttsFn\<close> throws, should
  the call reach it.
\<close>

fun request_throws :: "event \<Rightarrow> bool" where
  "request_throws (RequestTTS service language voice text sessionId now tts) \<longleftrightarrow> tts = Throws"
| "request_throws e \<longleftrightarrow> False"

text \<open>What never changes of a generation call: its kind and its key.\<close>

definition call_static :: "gen_call \<Rightarrow> call_kind \<times> string" where
  "call_static c = (c_kind c, call_key c)"

text \<open>
  The request \<open>r\<close> cannot return before the promise \<open>p\<close> settles: it has thrown,
  or it is suspended at its barrier and awaits \<open>p\<close>, or \<open>p\<close> has settled.
\<close>

definition held_back :: "nat \<Rightarrow> nat \<Rightarrow> state \<Rightarrow> bool" where
  "held_back r p s \<longleftrightarrow>
     r < length (tasks s) \<and>
     (is_settled s p \<or> tasks s ! r = Thrown
      \<or> (\<exists>a b c d waits. tasks s ! r = AtBarrier a b c d waits \<and> p \<in> set waits))"

text \<open>
  A pending entry holds the promise of a call of \<open>preloadWithSettings\<close> for its own
  key, and that call has not settled.
\<close>

definition pending_inv :: "state \<Rightarrow> bool" where
  "pending_inv s \<longleftrightarrow>
     (\<forall>e\<in>set (cache s). status (snd e) = Pending \<longrightarrow>
        promise (snd e) < length (calls s)
        \<and> c_settled (calls s ! promise (snd e)) = None
        \<and> call_static (calls s ! promise (snd e)) = (Chained, fst e))"

text \<open>
  A session queue holds no key twice, and only keys that have an entry in the cache.
\<close>

definition queues_inv :: "state \<Rightarrow> bool" where
  "queues_inv s \<longleftrightarrow>
     (\<forall>q\<in>snd ` set (sessionQueues s). distinct q \<and> set q \<subseteq> fst ` set (cache s))"

definition reachable_inv :: "state \<Rightarrow> bool" where
  "reachable_inv s \<longleftrightarrow> size_inv s \<and> pending_inv s \<and> queues_inv s"

section \<open>Example states\<close>

definition configured_example :: state where
  "configured_example =
     run [Initialize 1 1000 10 2000, SetSessionSettings ''s1'' ''aws'' ''en-US'' ''female'',
          PreloadTTS ''Hello world'' ''s1'' 1 Returns] initial_state"

definition audio :: "string \<Rightarrow> artifact" where
  "audio x = \<lparr>payload = x, truthy = True, stringifyLength = Some (length x + 2)\<rparr>"

text \<open>
  Three preloads, two of them completed, then a second \<open>initialize\<close> that lowers the
  entry limit to one: the cache holds three entries and is over its limit.
\<close>

definition eviction_example :: state where
  "eviction_example =
     run [Initialize 1 1000 3 5000, SetSessionSettings ''s1'' ''aws'' ''en'' ''f'',
          PreloadTTS ''a'' ''s1'' 1 Returns, PreloadTTS ''b'' ''s1'' 2 Returns, PreloadTTS ''c'' ''s1'' 3 Returns,
          Settle 0 (GenResolve (Some (audio ''A''))) 4,
          Settle 1 (GenResolve (Some (audio ''B''))) 5,
          Initialize 1 1000 1 5000] initial_state"

text \<open>Two preloads in flight under an entry limit of one.\<close>

definition pending_example :: state where
  "pending_example =
     run [Initialize 1 1000 1 5000, SetSessionSettings ''s1'' ''aws'' ''en'' ''f'',
          PreloadTTS ''x'' ''s1'' 1 Returns, PreloadTTS ''y'' ''s1'' 2 Returns] initial_state"

text \<open>
  A request for a text that was not preloaded, suspended on the promise of the call it
  started.
\<close>

definition awaiting_example :: state where
  "awaiting_example =
     run [Initialize 1 1000 10 2000, SetSessionSettings ''s1'' ''aws'' ''en-US'' ''female'',
          RequestTTS ''aws'' ''en-US'' ''female'' ''Fail test'' ''s1'' 1 Returns, Resume 0 2 Returns]
       initial_state"

text \<open>Three preloads in flight on one session.\<close>

definition sequence_example :: state where
  "sequence_example =
     run [Initialize 1 1000 100 5000, SetSessionSettings ''s1'' ''aws'' ''en'' ''f'',
          PreloadTTS ''First'' ''s1'' 1 Returns, PreloadTTS ''Second'' ''s1'' 2 Returns,
          PreloadTTS ''Third'' ''s1'' 3 Returns] initial_state"

text \<open>
  A preload in flight on one session, and a request on another session that has
  returned.
\<close>

definition cross_session_example :: state where
  "cross_session_example =
     run [Initialize 1 1000 100 5000, SetSessionSettings ''s1'' ''aws'' ''en'' ''f'',
          PreloadTTS ''slow'' ''s1'' 1 Returns,
          RequestTTS ''aws'' ''en'' ''f'' ''fast'' ''s2'' 2 Returns, Resume 0 3 Returns,
          Settle 1 (GenResolve (Some (audio ''F''))) 4, Resume 0 5 Returns] initial_state"

text \<open>
  A request for a text that is not in the cache, made while the configured function
  throws.
\<close>

definition throwing_example :: state where
  "throwing_example =
     run [Initialize 1 1000 10 2000,
          RequestTTS ''aws'' ''en-US'' ''female'' ''Hello'' ''s1'' 1 Throws] initial_state"

text \<open>
  Two preloads in flight under an entry limit of one, and a request for the second
  text, suspended at its barrier until the first call settles. The second call has
  completed first and its entry was evicted at once; then the first has completed. The
  request will find no entry and make the direct call.
\<close>

definition direct_throw_example :: state where
  "direct_throw_example =
     run [RequestTTS ''aws'' ''en'' ''f'' ''y'' ''s1'' 3 Returns,
          Settle 1 (GenResolve (Some (audio ''Y''))) 4,
          Settle 0 (GenResolve (Some (audio ''X''))) 5] pending_example"

text \<open>
  A text completed for one session; on a second session a request for another text
  and then a request for the first text, both resumed in that order.
\<close>

definition unqueued_example :: state where
  "unqueued_example =
     run [Initialize 1 1000 100 5000, SetSessionSettings ''s1'' ''aws'' ''en'' ''f'',
          PreloadTTS ''x'' ''s1'' 1 Returns, Settle 0 (GenResolve (Some (audio ''X''))) 2,
          RequestTTS ''aws'' ''en'' ''f'' ''z'' ''s2'' 3 Returns,
          RequestTTS ''aws'' ''en'' ''f'' ''x'' ''s2'' 4 Returns,
          Resume 0 5 Returns, Resume 1 6 Returns] initial_state"

section \<open>Properties of the fingerprint\<close>

lemma append_sep_cancel:
  "c \<notin> set xs \<Longrightarrow> c \<notin> set ys \<Longrightarrow> xs @ c # us = ys @ c # vs \<Longrightarrow> xs = ys \<and> us = vs"
proof (induction xs arbitrary: ys)
  case Nil
  then show ?case by (cases ys) auto
next
  case (Cons x xs)
  then show ?case by (cases ys) auto
qed

text \<open>
  C5, as stated, fails: the key is the plain concatenation of the four fields with the
  separator \<open>::\<close>, so two distinct tuples whose fields contain the separator can
  produce one key.
\<close>

theorem generateKey_collision:
  "generateKey ''a::b'' ''c'' ''d'' ''e'' = generateKey ''a'' ''b::c'' ''d'' ''e''
   \<and> (''a::b'', ''c'', ''d'', ''e'') \<noteq> (''a'', ''b::c'', ''d'', ''e'')"
  by (simp add: generateKey_def)

text \<open>
  C5, amended: the fingerprint is a function of the tuple (service, language, voice,
  text), and on tuples whose service, language and voice contain no colon (the text is
  unrestricted) it is injective: two such tuples have the same fingerprint exactly when
  they are equal, so no field is normalized.
\<close>

theorem generateKey_injective_without_colon:
  assumes "CHR '':'' \<notin> set service \<union> set language \<union> set voice"
    and "CHR '':'' \<notin> set service' \<union> set language' \<union> set voice'"
  shows "generateKey service language voice text = generateKey service' language' voice' text'
         \<longleftrightarrow> (service, language, voice, text) = (service', language', voice', text')"
proof
  assume eq: "generateKey service language voice text = generateKey service' language' voice' text'"
  let ?r = "CHR '':'' # language @ ''::'' @ voice @ ''::'' @ text"
  let ?r' = "CHR '':'' # language' @ ''::'' @ voice' @ ''::'' @ text'"
  from eq have "service @ CHR '':'' # ?r = service' @ CHR '':'' # ?r'"
    by (simp add: generateKey_def)
  with assms have 1: "service = service'" and r: "?r = ?r'"
    using append_sep_cancel [of "CHR '':''" service service' ?r ?r'] by auto
  let ?q = "CHR '':'' # voice @ ''::'' @ text"
  let ?q' = "CHR '':'' # voice' @ ''::'' @ text'"
  from r have "language @ CHR '':'' # ?q = language' @ CHR '':'' # ?q'" by simp
  with assms have 2: "language = language'" and q: "?q = ?q'"
    using append_sep_cancel [of "CHR '':''" language language' ?q ?q'] by auto
  from q have "voice @ CHR '':'' # CHR '':'' # text = voice' @ CHR '':'' # CHR '':'' # text'"
    by simp
  with assms have "voice = voice'" and "text = text'"
    using append_sep_cancel [of "CHR '':''" voice voice' "CHR '':'' # text" "CHR '':'' # text'"]
    by auto
  with 1 2 show "(service, language, voice, text) = (service', language', voice', text')"
    by simp
next
  assume "(service, language, voice, text) = (service', language', voice', text')"
  then show "generateKey service language voice text = generateKey service' language' voice' text'"
    by simp
qed

theorem generateKey_injective_witness:
  "CHR '':'' \<notin> set ''aws'' \<union> set ''en-US'' \<union> set ''female''
   \<and> CHR '':'' \<notin> set ''aws'' \<union> set ''en-GB'' \<union> set ''female''
   \<and> generateKey ''aws'' ''en-US'' ''female'' ''Hi: you''
       \<noteq> generateKey ''aws'' ''en-GB'' ''female'' ''Hi: you''"
  using generateKey_injective_without_colon
    [of "''aws''" "''en-US''" "''female''" "''aws''" "''en-GB''" "''female''"
        "''Hi: you''" "''Hi: you''"]
  by simp

section \<open>Reset and configuration\<close>

text \<open>
  C9: \<open>uninitialize\<close> empties the cache, the aggregate size, the session queues, the
  session settings and the pending promises; calling it a second time changes nothing;
  after it the statistics report zero entries and zero size.
\<close>

theorem uninitialize_clears_idempotent:
  "uninitialize (uninitialize s) = uninitialize s
   \<and> cache (uninitialize s) = [] \<and> currentSize (uninitialize s) = 0
   \<and> sessionQueues (uninitialize s) = [] \<and> sessionSettings (uninitialize s) = []
   \<and> pendingPromises (uninitialize s) = []
   \<and> currentItems (fst (getCacheStats (uninitialize s))) = 0
   \<and> st_currentSize (fst (getCacheStats (uninitialize s))) = 0"
  by (simp add: uninitialize_def getCacheStats_def)

text \<open>
  C10: on a service that is already configured, \<open>initialize\<close> assigns the generation
  function, the timeout and the two limits, and nothing else: the cache, the aggregate
  size, the session queues, the session settings and the pending promises are the same
  as before.
\<close>

theorem initialize_again_keeps_state:
  assumes "initialized s" and "has_instance s"
  shows "initialize f maxCacheSize maxCacheItems requestTimeoutMs s =
           s\<lparr>ttsFn := f, timeoutMs := requestTimeoutMs, maxSize := maxCacheSize,
             maxItems := maxCacheItems\<rparr>"
  using assms by (simp add: initialize_def)

theorem initialize_again_witness:
  "initialized configured_example \<and> has_instance configured_example
   \<and> initialize 2 500 5 100 configured_example =
       configured_example\<lparr>ttsFn := 2, timeoutMs := 100, maxSize := 500, maxItems := 5\<rparr>
   \<and> length (cache (initialize 2 500 5 100 configured_example)) = 1"
proof -
  have h1: "initialized configured_example" by code_simp
  have h2: "has_instance configured_example" by code_simp
  have h3: "length (cache configured_example) = 1" by code_simp
  show ?thesis
    using h1 h2 h3 initialize_again_keeps_state [OF h1 h2, of 2 500 5 100] by simp
qed

section \<open>Operations before configuration\<close>

text \<open>
  C8, as stated, fails for the statistics: \<open>getCacheStats\<close> has no test of
  \<open>initialized\<close>. Before configuration it logs nothing and returns the counters
  with the default limits.
\<close>

theorem getCacheStats_unguarded:
  "\<not> initialized initial_state
   \<and> console (snd (getCacheStats initial_state)) = []
   \<and> fst (getCacheStats initial_state) =
       \<lparr>currentItems = 0, st_maxItems = 100, st_currentSize = 0, st_maxSize = 10485760\<rparr>"
  by (simp add: getCacheStats_def initial_state_def)

text \<open>
  C8, amended: before configuration, \<open>hasCompletedItem\<close> and \<open>hasPending\<close> log a
  warning and return false, \<open>setSessionSettings\<close> and \<open>preloadTTS\<close> log a warning
  and do nothing, and \<open>requestTTS\<close> logs a warning and returns null; none of them
  changes anything but the console. \<open>getCacheStats\<close> is not guarded: it logs nothing,
  changes nothing, and returns the entry count, the aggregate size and the two limits
  as they are.
\<close>

theorem not_initialized_operations:
  assumes "\<not> initialized s"
  shows "hasCompletedItem service language voice text s =
           (False, warn ''TTSCacheService: Not initialized when checking for completed item'' s)
       \<and> hasPending service language voice text s =
           (False, warn ''TTSCacheService: Not initialized when checking for pending request'' s)
       \<and> setSessionSettings sessionId service language voice s =
           warn ''TTSCacheService: Not initialized when setting session settings'' s
       \<and> preloadTTS text sessionId now tts s =
           (Return, warn ''TTSCacheService: Not initialized when preloading TTS'' s)
       \<and> requestTTS service language voice text sessionId now tts s =
           (warn ''TTSCacheService: Not initialized when requesting TTS'' s)
             \<lparr>tasks := tasks s @ [Returned None]\<rparr>
       \<and> getCacheStats s =
           (\<lparr>currentItems = int (length (cache s)), st_maxItems = maxItems s,
             st_currentSize = currentSize s, st_maxSize = maxSize s\<rparr>, s)"
  using assms
  by (simp add: hasCompletedItem_def hasPending_def setSessionSettings_def preloadTTS_def
      requestTTS_def getCacheStats_def warn_def)

theorem not_initialized_witness:
  "\<not> initialized initial_state
   \<and> fst (hasCompletedItem ''aws'' ''en'' ''f'' ''Hi'' initial_state) = False
   \<and> console (snd (hasCompletedItem ''aws'' ''en'' ''f'' ''Hi'' initial_state)) =
        [Warn ''TTSCacheService: Not initialized when checking for completed item'']
   \<and> tasks (requestTTS ''aws'' ''en'' ''f'' ''Hi'' ''s1'' 1 Returns initial_state) = [Returned None]
   \<and> cache (requestTTS ''aws'' ''en'' ''f'' ''Hi'' ''s1'' 1 Returns initial_state) = []"
  using not_initialized_operations
    [of initial_state "''aws''" "''en''" "''f''" "''Hi''" "''s1''" 1 Returns]
  by (simp add: initial_state_def warn_def)

section \<open>The cache invariant and eviction\<close>

lemma remove_entries_Nil: "remove_entries [] s = s"
  by (simp add: remove_entries_def cache_sum_def split_def)

lemma filter_delete_keys:
  "filter (\<lambda>e. fst e \<notin> fst ` set vs) (AList.delete k al) =
   filter (\<lambda>e. fst e \<notin> fst ` set ((k, it) # vs)) al"
  by (induction al) (auto simp: AList.delete_eq)

lemma remove_entries_evict:
  "remove_entries vs (evict k it s) = remove_entries ((k, it) # vs) s"
  unfolding remove_entries_def evict_def
  by (simp add: filter_delete_keys [of vs k _ it] cache_sum_def comp_def split_def
      diff_diff_eq del: set_simps list.set)

lemma evict_loop_char:
  "\<exists>n\<le>length (filter evictable es).
      evict_loop es s = remove_entries (take n (filter evictable es)) s
    \<and> (\<forall>m<n. over_limits (remove_entries (take m (filter evictable es)) s))
    \<and> (over_limits (evict_loop es s) \<longrightarrow> n = length (filter evictable es))"
proof (induction es arbitrary: s)
  case Nil
  then show ?case by (simp add: remove_entries_Nil)
next
  case (Cons e es)
  obtain k it where e: "e = (k, it)" by (cases e)
  show ?case
  proof (cases "over_limits s")
    case False
    then have "evict_loop (e # es) s = s" by (simp add: e)
    with False show ?thesis
      by (intro exI [of _ 0]) (simp add: remove_entries_Nil)
  next
    case over: True
    show ?thesis
    proof (cases "status it = Pending")
      case True
      with over have "evict_loop (e # es) s = evict_loop es s" by (simp add: e)
      moreover from True have "filter evictable (e # es) = filter evictable es"
        by (simp add: e evictable_def)
      ultimately show ?thesis using Cons.IH [of s] by simp
    next
      case False
      with over have loop: "evict_loop ((k, it) # es) s = evict_loop es (evict k it s)"
        by simp
      from False have flt: "filter evictable ((k, it) # es) = (k, it) # filter evictable es"
        by (simp add: evictable_def)
      from Cons.IH [of "evict k it s"] obtain n where
        n: "n \<le> length (filter evictable es)"
        and eq: "evict_loop es (evict k it s) =
                   remove_entries (take n (filter evictable es)) (evict k it s)"
        and before: "\<forall>m<n. over_limits (remove_entries (take m (filter evictable es)) (evict k it s))"
        and stop: "over_limits (evict_loop es (evict k it s)) \<longrightarrow> n = length (filter evictable es)"
        by blast
      have b: "\<forall>m<Suc n. over_limits (remove_entries (take m ((k, it) # filter evictable es)) s)"
      proof (intro allI impI)
        fix m assume m: "m < Suc n"
        show "over_limits (remove_entries (take m ((k, it) # filter evictable es)) s)"
        proof (cases m)
          case 0
          with over show ?thesis by (simp add: remove_entries_Nil)
        next
          case (Suc m')
          with m have "m' < n" by simp
          with before have "over_limits (remove_entries (take m' (filter evictable es)) (evict k it s))"
            by blast
          then show ?thesis by (simp add: Suc remove_entries_evict)
        qed
      qed
      have a: "Suc n \<le> length ((k, it) # filter evictable es)" using n by simp
      have c: "evict_loop es (evict k it s) =
                 remove_entries (take (Suc n) ((k, it) # filter evictable es)) s"
        using eq by (simp add: remove_entries_evict)
      have d: "over_limits (evict_loop es (evict k it s)) \<longrightarrow>
                 Suc n = length ((k, it) # filter evictable es)"
        using stop by simp
      from a b c d show ?thesis
        unfolding e loop flt by blast
    qed
  qed
qed

lemma cache_sum_delete:
  "distinct (map fst al) \<Longrightarrow> (k, it) \<in> set al \<Longrightarrow>
   cache_sum (AList.delete k al) = cache_sum al - size_bytes it"
  by (induction al) (auto simp: cache_sum_def AList.delete_id rev_image_eqI)

lemma cache_sum_update:
  "cache_sum (AList.update k it al) =
   cache_sum al - (case map_of al k of Some old \<Rightarrow> size_bytes old | None \<Rightarrow> 0) + size_bytes it"
  by (induction al) (auto simp: cache_sum_def)

lemma size_inv_evict:
  assumes "size_inv s" and "(k, it) \<in> set (cache s)"
  shows "size_inv (evict k it s)"
  using assms by (simp add: size_inv_def evict_def cache_sum_delete AList.distinct_delete)

lemma evict_loop_size_inv:
  "size_inv s \<Longrightarrow> distinct (map fst es) \<Longrightarrow> set es \<subseteq> set (cache s) \<Longrightarrow>
   size_inv (evict_loop es s)"
proof (induction es s rule: evict_loop.induct)
  case (1 s)
  then show ?case by simp
next
  case (2 oldestKey oldestItem entries s)
  show ?case
  proof (cases "over_limits s \<and> status oldestItem \<noteq> Pending")
    case True
    have inv: "size_inv (evict oldestKey oldestItem s)"
      using "2.prems" by (intro size_inv_evict) auto
    have "set entries \<subseteq> set (cache (evict oldestKey oldestItem s))"
      using "2.prems" by (auto simp: evict_def AList.delete_eq rev_image_eqI)
    with True inv "2.prems" "2.IH"(2) show ?thesis by simp
  next
    case False
    with "2.prems" "2.IH"(1) show ?thesis by auto
  qed
qed

lemma distinct_keys_sort:
  "distinct (map fst al) \<Longrightarrow> distinct (map fst (sort_key f al))"
  by (simp add: distinct_map)

lemma enforceCacheLimits_size_inv:
  assumes "size_inv s"
  shows "size_inv (enforceCacheLimits s)"
proof (cases "over_limits s")
  case True
  from assms have "distinct (map fst (sort_key (\<lambda>e. timestamp (snd e)) (cache s)))"
    by (simp add: size_inv_def distinct_keys_sort)
  with assms have "size_inv (evict_loop (sort_key (\<lambda>e. timestamp (snd e)) (cache s)) s)"
    by (intro evict_loop_size_inv) simp_all
  with True show ?thesis by (simp add: enforceCacheLimits_def)
next
  case False
  with assms show ?thesis by (simp add: enforceCacheLimits_def)
qed

lemma setCacheItem_size_inv:
  assumes "size_inv s"
  shows "size_inv (setCacheItem key item s)"
proof -
  let ?old = "case map_of (cache s) key of Some oldItem \<Rightarrow> size_bytes oldItem | None \<Rightarrow> 0"
  let ?put = "s\<lparr>cache := AList.update key item (cache s),
                currentSize := currentSize s - ?old + size_bytes item\<rparr>"
  have eq: "setCacheItem key item s = enforceCacheLimits ?put"
    by (simp add: setCacheItem_def Let_def split: option.splits)
  from assms have "size_inv ?put"
    by (simp add: size_inv_def cache_sum_update AList.distinct_update)
  then show ?thesis unfolding eq by (rule enforceCacheLimits_size_inv)
qed

lemma size_inv_frame:
  "cache s' = cache s \<Longrightarrow> currentSize s' = currentSize s \<Longrightarrow> size_inv s' = size_inv s"
  by (simp add: size_inv_def)

lemma size_inv_warn [simp]: "size_inv (warn msg s) = size_inv s"
  by (simp add: size_inv_def warn_def)

lemma size_inv_log_error [simp]: "size_inv (log_error msg s) = size_inv s"
  by (simp add: size_inv_def log_error_def)

lemma size_inv_new_call [simp]: "size_inv (new_call kind a b c d s) = size_inv s"
  by (simp add: size_inv_def new_call_def)

lemma size_inv_set_settled [simp]: "size_inv (set_settled p v s) = size_inv s"
  by (simp add: size_inv_def set_settled_def)

lemma size_inv_finish [simp]: "size_inv (finish r c) = size_inv (snd c)"
  by (simp add: size_inv_def finish_def)

lemma size_inv_updates [simp]:
  "size_inv (s\<lparr>sessionQueues := q\<rparr>) = size_inv s"
  "size_inv (s\<lparr>pendingPromises := pp\<rparr>) = size_inv s"
  "size_inv (s\<lparr>sessionSettings := ss\<rparr>) = size_inv s"
  "size_inv (s\<lparr>tasks := ts\<rparr>) = size_inv s"
  by (simp_all add: size_inv_def)

lemma size_inv_initial: "size_inv initial_state"
  by (simp add: size_inv_def initial_state_def cache_sum_def)

lemma size_inv_initialize: "size_inv s \<Longrightarrow> size_inv (initialize f a b c s)"
  by (simp add: size_inv_def initialize_def Let_def)

lemma size_inv_uninitialize: "size_inv (uninitialize s)"
  by (simp add: size_inv_def uninitialize_def cache_sum_def)

lemma size_inv_setSessionSettings:
  "size_inv s \<Longrightarrow> size_inv (setSessionSettings sessionId a b c s)"
  by (simp add: setSessionSettings_def)

lemma size_inv_preloadWithSettings:
  "size_inv s \<Longrightarrow> size_inv (snd (preloadWithSettings a b c d sessionId now tts s))"
  by (simp add: preloadWithSettings_def Let_def setCacheItem_size_inv split: tts_call.splits)

lemma size_inv_preloadTTS: "size_inv s \<Longrightarrow> size_inv (snd (preloadTTS text sessionId now tts s))"
  by (simp add: preloadTTS_def size_inv_preloadWithSettings split: option.splits)

lemma size_inv_requestTTS:
  "size_inv s \<Longrightarrow> size_inv (requestTTS a b c d sessionId now tts s)"
  by (simp add: requestTTS_def Let_def split_def size_inv_preloadWithSettings
      size_inv_setSessionSettings split: signal.splits)

lemma size_inv_withTimeout: "size_inv (snd (withTimeout outcome s)) = size_inv s"
  by (simp add: withTimeout_def split: gen_outcome.splits)

lemma size_inv_chain_settled:
  "size_inv s \<Longrightarrow> size_inv (snd (chain_settled key p wt now s))"
  by (simp add: chain_settled_def setCacheItem_size_inv split: settled.splits option.splits)

lemma size_inv_settle: "size_inv s \<Longrightarrow> size_inv (settle p outcome now s)"
  by (simp add: settle_def Let_def split_def size_inv_withTimeout size_inv_chain_settled
      split: call_kind.splits)

lemma size_inv_try_catch_outer:
  "size_inv (snd c) \<Longrightarrow> size_inv (snd (try_catch c outer_catch))"
  by (simp add: try_catch_def outer_catch_def split: completion.splits)

lemma size_inv_try_catch_inner:
  "size_inv (snd c) \<Longrightarrow> size_inv (snd (try_catch c inner_catch))"
  by (simp add: try_catch_def inner_catch_def split: completion.splits)

lemma size_inv_direct_body:
  "size_inv s \<Longrightarrow> size_inv (snd (direct_body p key v now s))"
  by (simp add: direct_body_def await_value_def setCacheItem_size_inv
      split: settled.splits option.splits)

lemma size_inv_resume: "size_inv s \<Longrightarrow> size_inv (resume r now tts s)"
  by (simp add: resume_def after_barrier_def item_awaited_def direct_awaited_def Let_def
      await_value_def size_inv_try_catch_outer size_inv_try_catch_inner size_inv_direct_body
      split: task.splits option.splits settled.splits tts_call.splits)

lemma size_inv_step: "size_inv s \<Longrightarrow> size_inv (step e s)"
  by (cases e)
     (simp_all add: size_inv_initialize size_inv_uninitialize size_inv_setSessionSettings
        size_inv_preloadTTS size_inv_requestTTS size_inv_settle size_inv_resume
        getCacheStats_def hasCompletedItem_def hasPending_def split: option.splits)

lemma size_inv_run: "size_inv s \<Longrightarrow> size_inv (run es s)"
  unfolding run_def by (induction es arbitrary: s) (simp_all add: size_inv_step)

lemma enforceCacheLimits_char:
  "\<exists>n\<le>length (candidates s).
      enforceCacheLimits s = remove_entries (take n (candidates s)) s
    \<and> (\<forall>m<n. over_limits (remove_entries (take m (candidates s)) s))
    \<and> (over_limits (enforceCacheLimits s) \<longrightarrow> n = length (candidates s))"
proof (cases "over_limits s")
  case True
  then show ?thesis
    using evict_loop_char [of "sort_key (\<lambda>e. timestamp (snd e)) (cache s)" s]
    by (simp add: enforceCacheLimits_def candidates_def)
next
  case False
  then show ?thesis
    by (intro exI [of _ 0]) (simp add: enforceCacheLimits_def remove_entries_Nil)
qed

lemma set_take_candidates:
  "set (take n (candidates s)) \<subseteq> {e \<in> set (cache s). evictable e}"
  using set_take_subset [of n "candidates s"] by (auto simp: candidates_def)

lemma fold_remove1_distinct:
  "distinct q \<Longrightarrow> distinct (fold remove1 ks q) \<and> set (fold remove1 ks q) = set q - set ks"
  by (induction ks arbitrary: q) auto

lemma map_of_filter_keys:
  "map_of (filter (\<lambda>e. fst e \<notin> K) al) k = (if k \<in> K then None else map_of al k)"
  by (induction al) auto

lemma remove_entries_fields [simp]:
  "cache (remove_entries vs s) = filter (\<lambda>e. fst e \<notin> fst ` set vs) (cache s)"
  "currentSize (remove_entries vs s) = currentSize s - cache_sum vs"
  "pendingPromises (remove_entries vs s) =
     filter (\<lambda>e. fst e \<notin> fst ` set vs) (pendingPromises s)"
  "sessionQueues (remove_entries vs s) =
     map (\<lambda>(sessionId, queue). (sessionId, fold remove1 (map fst vs) queue)) (sessionQueues s)"
  "sessionSettings (remove_entries vs s) = sessionSettings s"
  "initialized (remove_entries vs s) = initialized s"
  "has_instance (remove_entries vs s) = has_instance s"
  "ttsFn (remove_entries vs s) = ttsFn s"
  "timeoutMs (remove_entries vs s) = timeoutMs s"
  "maxSize (remove_entries vs s) = maxSize s"
  "maxItems (remove_entries vs s) = maxItems s"
  "calls (remove_entries vs s) = calls s"
  "tasks (remove_entries vs s) = tasks s"
  "console (remove_entries vs s) = console s"
  by (simp_all add: remove_entries_def)

lemma pending_not_victim:
  assumes d: "distinct (map fst (cache s))"
    and e: "e \<in> set (cache s)" "status (snd e) = Pending"
  shows "fst e \<notin> fst ` set (take n (candidates s))"
proof
  assume "fst e \<in> fst ` set (take n (candidates s))"
  then obtain v where v: "v \<in> set (take n (candidates s))" "fst v = fst e" by auto
  with set_take_candidates [of n s] have "v \<in> set (cache s)" "evictable v" by auto
  with d e v have "v = e"
    using eq_key_imp_eq_value [of "cache s" "fst e" "snd v" "snd e"]
    by (metis prod.collapse)
  with \<open>evictable v\<close> e show False by (simp add: evictable_def)
qed

text \<open>
  C2: in every state the service can reach from its initial state by calls of its
  public methods, settlements of generation calls and resumptions of suspended
  requests, every key has one entry and \<open>currentSize\<close> is the sum of the sizes
  of the entries in the cache. Every event, every \<open>setCacheItem\<close> and every
  \<open>enforceCacheLimits\<close> keeps that. A \<open>setCacheItem\<close> on an existing key
  subtracts the size of the old entry before it adds the size of the new one, and
  eviction subtracts the sizes of exactly the entries it removes.
\<close>

theorem aggregate_size_invariant:
  "size_inv (run es initial_state)
   \<and> (size_inv s \<longrightarrow>
        size_inv (step e s) \<and> size_inv (setCacheItem key item s)
        \<and> size_inv (enforceCacheLimits s))
   \<and> (map_of (cache s) key = Some oldItem \<longrightarrow>
        setCacheItem key item s =
          enforceCacheLimits
            (s\<lparr>cache := AList.update key item (cache s),
               currentSize := currentSize s - size_bytes oldItem + size_bytes item\<rparr>))
   \<and> (\<exists>victims. set victims \<subseteq> set (cache s)
        \<and> enforceCacheLimits s = remove_entries victims s)"
proof -
  have reach: "size_inv (run es initial_state)"
    by (rule size_inv_run) (rule size_inv_initial)
  have pres: "size_inv s \<longrightarrow>
        size_inv (step e s) \<and> size_inv (setCacheItem key item s)
        \<and> size_inv (enforceCacheLimits s)"
    by (simp add: size_inv_step setCacheItem_size_inv enforceCacheLimits_size_inv)
  have put: "map_of (cache s) key = Some oldItem \<longrightarrow>
        setCacheItem key item s =
          enforceCacheLimits
            (s\<lparr>cache := AList.update key item (cache s),
               currentSize := currentSize s - size_bytes oldItem + size_bytes item\<rparr>)"
    by (simp add: setCacheItem_def Let_def)
  obtain n where "enforceCacheLimits s = remove_entries (take n (candidates s)) s"
    using enforceCacheLimits_char [of s] by blast
  moreover have "set (take n (candidates s)) \<subseteq> set (cache s)"
    using set_take_candidates [of n s] by blast
  ultimately have ev: "\<exists>victims. set victims \<subseteq> set (cache s)
        \<and> enforceCacheLimits s = remove_entries victims s"
    by blast
  from reach pres put ev show ?thesis by blast
qed

theorem aggregate_size_witness:
  "size_inv eviction_example
   \<and> currentSize eviction_example = 6
   \<and> map_of (cache eviction_example) ''aws::en::f::a'' = Some (completed_item 0 (audio ''A'') 4)
   \<and> size_inv (setCacheItem ''aws::en::f::a'' (error_item 0 9) eviction_example)
   \<and> currentSize (setCacheItem ''aws::en::f::a'' (error_item 0 9) eviction_example) = 0"
proof -
  have h0: "size_inv eviction_example"
    using aggregate_size_invariant
    unfolding eviction_example_def by blast
  have h1: "map_of (cache eviction_example) ''aws::en::f::a'' = Some (completed_item 0 (audio ''A'') 4)"
    by code_simp
  have h2: "currentSize eviction_example = 6" by code_simp
  have h3: "currentSize (setCacheItem ''aws::en::f::a'' (error_item 0 9) eviction_example) = 0"
    by code_simp
  from h0 aggregate_size_invariant [of _ eviction_example]
  have "size_inv (setCacheItem ''aws::en::f::a'' (error_item 0 9) eviction_example)"
    by blast
  with h0 h1 h2 h3 show ?thesis by blast
qed

text \<open>
  C3: \<open>setCacheItem\<close> ends with \<open>enforceCacheLimits\<close>, which changes nothing
  while both limits hold. Otherwise it removes a prefix of the non-pending entries
  taken in ascending order of timestamp: each removal happens in a state that is over
  a limit, and if the result is still over a limit every non-pending entry has been
  removed and only pending entries remain. A pending entry is never removed. A removed
  entry is gone from the cache, its size from the aggregate, its key from the pending
  promises and from every session queue.
\<close>

theorem eviction_enforcement:
  assumes "distinct (map fst (cache s))"
    and "\<forall>q\<in>snd ` set (sessionQueues s). distinct q"
  shows "setCacheItem key item s =
           enforceCacheLimits
             (s\<lparr>cache := AList.update key item (cache s),
                currentSize := currentSize s
                  - (case map_of (cache s) key of Some oldItem \<Rightarrow> size_bytes oldItem | None \<Rightarrow> 0)
                  + size_bytes item\<rparr>)
       \<and> (\<not> over_limits s \<longrightarrow> enforceCacheLimits s = s)
       \<and> (\<exists>n\<le>length (candidates s).
             enforceCacheLimits s = remove_entries (take n (candidates s)) s
           \<and> (\<forall>m<n. over_limits (remove_entries (take m (candidates s)) s))
           \<and> (over_limits (enforceCacheLimits s) \<longrightarrow> n = length (candidates s)))
       \<and> (\<forall>e\<in>set (cache s). status (snd e) = Pending \<longrightarrow> e \<in> set (cache (enforceCacheLimits s)))
       \<and> (\<forall>e\<in>set (cache s). e \<notin> set (cache (enforceCacheLimits s)) \<longrightarrow>
             map_of (cache (enforceCacheLimits s)) (fst e) = None
           \<and> map_of (pendingPromises (enforceCacheLimits s)) (fst e) = None
           \<and> (\<forall>q\<in>snd ` set (sessionQueues (enforceCacheLimits s)). fst e \<notin> set q))
       \<and> (over_limits (enforceCacheLimits s) \<longrightarrow>
             (\<forall>e\<in>set (cache (enforceCacheLimits s)). status (snd e) = Pending))"
proof -
  obtain n where n: "n \<le> length (candidates s)"
    and eq: "enforceCacheLimits s = remove_entries (take n (candidates s)) s"
    and before: "\<forall>m<n. over_limits (remove_entries (take m (candidates s)) s)"
    and stop: "over_limits (enforceCacheLimits s) \<longrightarrow> n = length (candidates s)"
    using enforceCacheLimits_char [of s] by blast
  let ?vs = "take n (candidates s)"
  have put: "setCacheItem key item s =
           enforceCacheLimits
             (s\<lparr>cache := AList.update key item (cache s),
                currentSize := currentSize s
                  - (case map_of (cache s) key of Some oldItem \<Rightarrow> size_bytes oldItem | None \<Rightarrow> 0)
                  + size_bytes item\<rparr>)"
    by (simp add: setCacheItem_def Let_def split: option.splits)
  have idle: "\<not> over_limits s \<longrightarrow> enforceCacheLimits s = s"
    by (simp add: enforceCacheLimits_def)
  have pend: "\<forall>e\<in>set (cache s). status (snd e) = Pending \<longrightarrow> e \<in> set (cache (enforceCacheLimits s))"
    using pending_not_victim [OF assms(1), of _ n] by (simp add: eq)
  have removed: "\<forall>e\<in>set (cache s). e \<notin> set (cache (enforceCacheLimits s)) \<longrightarrow>
             map_of (cache (enforceCacheLimits s)) (fst e) = None
           \<and> map_of (pendingPromises (enforceCacheLimits s)) (fst e) = None
           \<and> (\<forall>q\<in>snd ` set (sessionQueues (enforceCacheLimits s)). fst e \<notin> set q)"
  proof (intro ballI impI)
    fix e assume e: "e \<in> set (cache s)" "e \<notin> set (cache (enforceCacheLimits s))"
    then have k: "fst e \<in> fst ` set ?vs" by (simp add: eq)
    have "\<forall>q\<in>snd ` set (sessionQueues (enforceCacheLimits s)). fst e \<notin> set q"
    proof
      fix q assume "q \<in> snd ` set (sessionQueues (enforceCacheLimits s))"
      then obtain q0 where q0: "q0 \<in> snd ` set (sessionQueues s)"
        and q: "q = fold remove1 (map fst ?vs) q0"
        by (force simp: eq)
      with assms(2) have "distinct q0" by blast
      with q k show "fst e \<notin> set q" by (simp add: fold_remove1_distinct)
    qed
    with k show "map_of (cache (enforceCacheLimits s)) (fst e) = None
           \<and> map_of (pendingPromises (enforceCacheLimits s)) (fst e) = None
           \<and> (\<forall>q\<in>snd ` set (sessionQueues (enforceCacheLimits s)). fst e \<notin> set q)"
      by (simp add: eq map_of_filter_keys)
  qed
  have rest: "over_limits (enforceCacheLimits s) \<longrightarrow>
             (\<forall>e\<in>set (cache (enforceCacheLimits s)). status (snd e) = Pending)"
  proof (intro impI ballI)
    fix e assume "over_limits (enforceCacheLimits s)" and e: "e \<in> set (cache (enforceCacheLimits s))"
    with stop n have all: "?vs = candidates s" by simp
    from e have "e \<in> set (cache s)" "fst e \<notin> fst ` set (candidates s)"
      by (simp_all add: eq all)
    then have "\<not> evictable e" by (auto simp: candidates_def)
    then show "status (snd e) = Pending" by (simp add: evictable_def)
  qed
  from n eq before stop have char: "\<exists>n\<le>length (candidates s).
             enforceCacheLimits s = remove_entries (take n (candidates s)) s
           \<and> (\<forall>m<n. over_limits (remove_entries (take m (candidates s)) s))
           \<and> (over_limits (enforceCacheLimits s) \<longrightarrow> n = length (candidates s))"
    by blast
  from put idle char pend removed rest show ?thesis by blast
qed

theorem eviction_enforcement_witness:
  "distinct (map fst (cache eviction_example))
   \<and> over_limits eviction_example
   \<and> map fst (candidates eviction_example) = [''aws::en::f::a'', ''aws::en::f::b'']
   \<and> (''aws::en::f::c'', pending_item 2 3) \<in> set (cache (enforceCacheLimits eviction_example))
   \<and> map fst (cache (enforceCacheLimits eviction_example)) = [''aws::en::f::c'']
   \<and> sessionQueues (enforceCacheLimits eviction_example) = [(''s1'', [''aws::en::f::c''])]
   \<and> currentSize (enforceCacheLimits eviction_example) = 0
   \<and> \<not> over_limits (enforceCacheLimits eviction_example)
   \<and> distinct (map fst (cache pending_example))
   \<and> over_limits (enforceCacheLimits pending_example)
   \<and> list_all (\<lambda>e. status (snd e) = Pending) (cache (enforceCacheLimits pending_example))"
proof -
  have d1: "distinct (map fst (cache eviction_example))" by code_simp
  have q1: "\<forall>q\<in>snd ` set (sessionQueues eviction_example). distinct q" by code_simp
  have d2: "distinct (map fst (cache pending_example))" by code_simp
  have q2: "\<forall>q\<in>snd ` set (sessionQueues pending_example). distinct q" by code_simp
  have o1: "over_limits eviction_example" by code_simp
  have c1: "map fst (candidates eviction_example) = [''aws::en::f::a'', ''aws::en::f::b'']"
    by code_simp
  have p1: "(''aws::en::f::c'', pending_item 2 3) \<in> set (cache eviction_example)"
    by code_simp
  have p2: "status (snd (''aws::en::f::c'', pending_item 2 3)) = Pending"
    by (simp add: pending_item_def)
  from eviction_enforcement [OF d1 q1] p1 p2
  have r1: "(''aws::en::f::c'', pending_item 2 3) \<in> set (cache (enforceCacheLimits eviction_example))"
    by blast
  have r2: "map fst (cache (enforceCacheLimits eviction_example)) = [''aws::en::f::c'']"
    by code_simp
  have r3: "sessionQueues (enforceCacheLimits eviction_example) = [(''s1'', [''aws::en::f::c''])]"
    by code_simp
  have r4: "currentSize (enforceCacheLimits eviction_example) = 0" by code_simp
  have r5: "\<not> over_limits (enforceCacheLimits eviction_example)" by code_simp
  have o2: "over_limits (enforceCacheLimits pending_example)" by code_simp
  from eviction_enforcement [OF d2 q2] o2
  have "\<forall>e\<in>set (cache (enforceCacheLimits pending_example)). status (snd e) = Pending"
    by blast
  then have r6: "list_all (\<lambda>e. status (snd e) = Pending) (cache (enforceCacheLimits pending_example))"
    by (simp add: list_all_iff)
  from d1 o1 c1 r1 r2 r3 r4 r5 d2 o2 r6 show ?thesis by blast
qed

section \<open>Puts and settled calls\<close>

lemma enforceCacheLimits_frame [simp]:
  "sessionSettings (enforceCacheLimits s) = sessionSettings s"
  "initialized (enforceCacheLimits s) = initialized s"
  "has_instance (enforceCacheLimits s) = has_instance s"
  "ttsFn (enforceCacheLimits s) = ttsFn s"
  "timeoutMs (enforceCacheLimits s) = timeoutMs s"
  "maxSize (enforceCacheLimits s) = maxSize s"
  "maxItems (enforceCacheLimits s) = maxItems s"
  "calls (enforceCacheLimits s) = calls s"
  "tasks (enforceCacheLimits s) = tasks s"
  "console (enforceCacheLimits s) = console s"
proof -
  obtain n where "enforceCacheLimits s = remove_entries (take n (candidates s)) s"
    using enforceCacheLimits_char [of s] by blast
  then show
    "sessionSettings (enforceCacheLimits s) = sessionSettings s"
    "initialized (enforceCacheLimits s) = initialized s"
    "has_instance (enforceCacheLimits s) = has_instance s"
    "ttsFn (enforceCacheLimits s) = ttsFn s"
    "timeoutMs (enforceCacheLimits s) = timeoutMs s"
    "maxSize (enforceCacheLimits s) = maxSize s"
    "maxItems (enforceCacheLimits s) = maxItems s"
    "calls (enforceCacheLimits s) = calls s"
    "tasks (enforceCacheLimits s) = tasks s"
    "console (enforceCacheLimits s) = console s"
    by simp_all
qed

lemma setCacheItem_frame [simp]:
  "sessionSettings (setCacheItem key item s) = sessionSettings s"
  "initialized (setCacheItem key item s) = initialized s"
  "has_instance (setCacheItem key item s) = has_instance s"
  "ttsFn (setCacheItem key item s) = ttsFn s"
  "timeoutMs (setCacheItem key item s) = timeoutMs s"
  "maxSize (setCacheItem key item s) = maxSize s"
  "maxItems (setCacheItem key item s) = maxItems s"
  "calls (setCacheItem key item s) = calls s"
  "tasks (setCacheItem key item s) = tasks s"
  "console (setCacheItem key item s) = console s"
  by (simp_all add: setCacheItem_def Let_def split: option.splits)

lemma setCacheItem_put:
  "setCacheItem key item s =
     enforceCacheLimits
       (s\<lparr>cache := AList.update key item (cache s),
          currentSize := currentSize s
            - (case map_of (cache s) key of Some oldItem \<Rightarrow> size_bytes oldItem | None \<Rightarrow> 0)
            + size_bytes item\<rparr>)"
  by (simp add: setCacheItem_def Let_def split: option.splits)

lemma map_of_enforceCacheLimits:
  "map_of (cache (enforceCacheLimits s)) k = None
   \<or> map_of (cache (enforceCacheLimits s)) k = map_of (cache s) k"
proof -
  obtain n where "enforceCacheLimits s = remove_entries (take n (candidates s)) s"
    using enforceCacheLimits_char [of s] by blast
  then show ?thesis by (simp add: map_of_filter_keys)
qed

lemma map_of_setCacheItem_same:
  "map_of (cache (setCacheItem key item s)) key = None
   \<or> map_of (cache (setCacheItem key item s)) key = Some item"
  using map_of_enforceCacheLimits
    [of "s\<lparr>cache := AList.update key item (cache s),
          currentSize := currentSize s
            - (case map_of (cache s) key of Some oldItem \<Rightarrow> size_bytes oldItem | None \<Rightarrow> 0)
            + size_bytes item\<rparr>" key]
  by (simp add: setCacheItem_put AList.update_conv')

lemma length_update_present:
  "map_of al k = Some v \<Longrightarrow> length (AList.update k v' al) = length al"
  by (induction al) (auto split: if_splits)

lemma setCacheItem_within_limits:
  assumes "\<not> over_limits s" and "map_of (cache s) key = Some oldItem"
    and "size_bytes item \<le> size_bytes oldItem"
  shows "map_of (cache (setCacheItem key item s)) key = Some item"
proof -
  let ?put = "s\<lparr>cache := AList.update key item (cache s),
          currentSize := currentSize s - size_bytes oldItem + size_bytes item\<rparr>"
  from assms have "\<not> over_limits ?put"
    by (simp add: over_limits_def length_update_present)
  then have "enforceCacheLimits ?put = ?put" by (simp add: enforceCacheLimits_def)
  with assms(2) show ?thesis by (simp add: setCacheItem_put AList.update_conv')
qed

lemma withTimeout_failed:
  "generation_failed outcome \<Longrightarrow> fst (withTimeout outcome s) = Fulfilled None"
  by (auto simp: generation_failed_def withTimeout_def)

lemma withTimeout_frame [simp]:
  "cache (snd (withTimeout outcome s)) = cache s"
  "currentSize (snd (withTimeout outcome s)) = currentSize s"
  "maxItems (snd (withTimeout outcome s)) = maxItems s"
  "maxSize (snd (withTimeout outcome s)) = maxSize s"
  "calls (snd (withTimeout outcome s)) = calls s"
  "tasks (snd (withTimeout outcome s)) = tasks s"
  "initialized (snd (withTimeout outcome s)) = initialized s"
  "sessionQueues (snd (withTimeout outcome s)) = sessionQueues s"
  "pendingPromises (snd (withTimeout outcome s)) = pendingPromises s"
  by (simp_all add: withTimeout_def warn_def log_error_def split: gen_outcome.splits)

lemma settle_failed_chained:
  assumes "p < length (calls s)" and "c_settled (calls s ! p) = None"
    and "c_kind (calls s ! p) = Chained" and "generation_failed outcome"
  shows "settle p outcome now s =
           set_settled p (Fulfilled None)
             (setCacheItem (call_key (calls s ! p)) (error_item p now)
                (snd (withTimeout outcome s)))"
  using assms withTimeout_failed [of outcome s]
  by (simp add: settle_def Let_def split_def chain_settled_def call_key_def)

section \<open>Exceptions of requestTTS\<close>

lemma tasks_preloadWithSettings [simp]:
  "tasks (snd (preloadWithSettings a b c d sessionId now tts s)) = tasks s"
  by (simp add: preloadWithSettings_def Let_def new_call_def split: tts_call.splits)

lemma tasks_preloadTTS [simp]: "tasks (snd (preloadTTS text sessionId now tts s)) = tasks s"
  by (simp add: preloadTTS_def warn_def split: option.splits)

lemma tasks_setSessionSettings [simp]:
  "tasks (setSessionSettings sessionId a b c s) = tasks s"
  by (simp add: setSessionSettings_def warn_def)

lemma tasks_settle [simp]: "tasks (settle p outcome now s) = tasks s"
  by (simp add: settle_def Let_def split_def chain_settled_def set_settled_def
      split: call_kind.splits settled.splits option.splits)

lemma preloadWithSettings_signal:
  "fst (preloadWithSettings a b c d sessionId now tts s) =
     (if \<not> has_key (cache s) (generateKey a b c d) \<and> tts = Throws then Throw else Return)"
  by (simp add: preloadWithSettings_def Let_def split: tts_call.splits)

lemma tasks_requestTTS:
  "\<exists>t. tasks (requestTTS a b c d sessionId now tts s) = tasks s @ [t]
     \<and> (t = Thrown \<longrightarrow> tts = Throws)"
  by (simp add: requestTTS_def Let_def split_def warn_def preloadWithSettings_signal
      split: signal.splits)

lemma try_catch_outer_normal: "\<exists>v. fst (try_catch c outer_catch) = Normal v"
  by (cases "fst c") (simp_all add: try_catch_def outer_catch_def)

lemma tasks_finish_normal:
  "fst c = Normal v \<Longrightarrow> tasks (finish r c) = (tasks (snd c))[r := Returned v]"
  by (simp add: finish_def)

lemma tasks_try_catch_outer [simp]:
  "tasks (snd (try_catch c outer_catch)) = tasks (snd c)"
  by (cases "fst c") (simp_all add: try_catch_def outer_catch_def log_error_def)

lemma tasks_try_catch_inner [simp]:
  "tasks (snd (try_catch c inner_catch)) = tasks (snd c)"
  by (cases "fst c") (simp_all add: try_catch_def inner_catch_def log_error_def)

lemma tasks_direct_body [simp]: "tasks (snd (direct_body p key v now s)) = tasks s"
  by (simp add: direct_body_def await_value_def split: settled.splits option.splits)

lemma tasks_item_awaited:
  "\<exists>v. tasks (item_awaited r w s) = (tasks s)[r := Returned v]"
proof -
  obtain v where "fst (try_catch (await_value w s) outer_catch) = Normal v"
    using try_catch_outer_normal by blast
  then have "tasks (item_awaited r w s) =
               (tasks (snd (try_catch (await_value w s) outer_catch)))[r := Returned v]"
    unfolding item_awaited_def by (rule tasks_finish_normal)
  then show ?thesis by (auto simp: await_value_def split: settled.splits)
qed

lemma tasks_direct_awaited:
  "\<exists>v. tasks (direct_awaited r p key w now s) = (tasks s)[r := Returned v]"
proof -
  let ?c = "try_catch (try_catch (direct_body p key w now s) inner_catch) outer_catch"
  obtain v where "fst ?c = Normal v"
    using try_catch_outer_normal by blast
  then have "tasks (direct_awaited r p key w now s) = (tasks (snd ?c))[r := Returned v]"
    unfolding direct_awaited_def by (rule tasks_finish_normal)
  then show ?thesis by auto
qed

lemma tasks_after_barrier:
  "\<exists>t. t \<noteq> Thrown \<and> tasks (after_barrier r a b c d tts s) = (tasks s)[r := t]"
  by (auto simp: after_barrier_def Let_def finish_def new_call_def try_catch_def
      outer_catch_def log_error_def split: option.splits tts_call.splits)

lemma tasks_resume:
  "tasks (resume r now tts s) = tasks s
   \<or> (\<exists>t. t \<noteq> Thrown \<and> tasks (resume r now tts s) = (tasks s)[r := t])"
proof (cases "r < length (tasks s)")
  case False
  then show ?thesis by (simp add: resume_def)
next
  case True
  show ?thesis
  proof (cases "tasks s ! r")
    case (AtBarrier a b c d waits)
    with True tasks_after_barrier [of r a b c d tts s] show ?thesis
      by (auto simp: resume_def)
  next
    case (AwaitItem p)
    with True show ?thesis
      using tasks_item_awaited [of r _ s]
      by (cases "settled_of s p") (auto simp: resume_def)
  next
    case (AwaitDirect p key)
    with True show ?thesis
      using tasks_direct_awaited [of r p key _ now s]
      by (cases "settled_of s p") (auto simp: resume_def)
  next
    case (Returned v)
    with True show ?thesis by (simp add: resume_def)
  next
    case Thrown
    with True show ?thesis by (simp add: resume_def)
  qed
qed

lemma tasks_simple [simp]:
  "tasks (initialize f a b c s) = tasks s"
  "tasks (uninitialize s) = tasks s"
  "tasks (snd (getCacheStats s)) = tasks s"
  "tasks (snd (hasCompletedItem sv l v t s)) = tasks s"
  "tasks (snd (hasPending sv l v t s)) = tasks s"
  by (simp_all add: initialize_def Let_def uninitialize_def getCacheStats_def
      hasCompletedItem_def hasPending_def warn_def split: option.splits)

lemma no_throw_step:
  assumes "Thrown \<notin> set (tasks s)" and "\<not> request_throws e"
  shows "Thrown \<notin> set (tasks (step e s))"
proof (cases e)
  case (RequestTTS a b c d sid now tts)
  with assms tasks_requestTTS [of a b c d sid now tts s] show ?thesis by auto
next
  case (Resume r now tts)
  from tasks_resume [of r now tts s] assms have "Thrown \<notin> set (tasks (resume r now tts s))"
    using set_update_subset_insert [of "tasks s" r] by fastforce
  with Resume show ?thesis by simp
qed (use assms in simp_all)

lemma no_throw_run:
  "Thrown \<notin> set (tasks s) \<Longrightarrow> \<not> list_ex request_throws es \<Longrightarrow>
   Thrown \<notin> set (tasks (run es s))"
  unfolding run_def by (induction es arbitrary: s) (simp_all add: no_throw_step)

lemma settle_failed_settled:
  assumes "p < length (calls s)" and "c_settled (calls s ! p) = None"
    and "c_kind (calls s ! p) \<noteq> Threw" and "generation_failed outcome"
  shows "settled_of (settle p outcome now s) p = Some (Fulfilled None)"
proof (cases "c_kind (calls s ! p)")
  case Chained
  with assms show ?thesis
    by (simp add: settle_failed_chained set_settled_def settled_of_def)
next
  case Direct
  with assms withTimeout_failed [of outcome s] show ?thesis
    by (simp add: settle_def Let_def split_def set_settled_def settled_of_def)
next
  case Threw
  with assms show ?thesis by simp
qed

lemma resume_awaiting_null:
  assumes "r < length (tasks s)" and "settled_of s p = Some (Fulfilled None)"
    and "tasks s ! r = AwaitItem p \<or> tasks s ! r = AwaitDirect p key"
  shows "tasks (resume r now tts s) ! r = Returned None"
  using assms
  by (auto simp: resume_def item_awaited_def direct_awaited_def direct_body_def
      await_value_def try_catch_def finish_def)

lemma resume_passes_barrier:
  assumes "r < length (tasks s)" and "tasks s ! r = AtBarrier a b c d waits"
    and "list_all (is_settled s) waits"
  shows "(\<exists>v. tasks (resume r now tts s) ! r = Returned v)
       \<or> (\<exists>p. tasks (resume r now tts s) ! r = AwaitItem p)
       \<or> (\<exists>p. tasks (resume r now tts s) ! r = AwaitDirect p (generateKey a b c d))"
  using assms
  by (auto simp: resume_def after_barrier_def Let_def finish_def new_call_def try_catch_def
      outer_catch_def log_error_def split: option.splits tts_call.splits)

lemma resume_returns:
  assumes "r < length (tasks s)" and "is_settled s p"
    and "tasks s ! r = AwaitItem p \<or> tasks s ! r = AwaitDirect p key"
  shows "\<exists>v. tasks (resume r now tts s) ! r = Returned v"
proof -
  from assms(2) obtain w where w: "settled_of s p = Some w"
    by (auto simp: is_settled_def)
  from assms(3) show ?thesis
  proof
    assume "tasks s ! r = AwaitItem p"
    with assms(1) w tasks_item_awaited [of r w s] show ?thesis
      by (auto simp: resume_def)
  next
    assume "tasks s ! r = AwaitDirect p key"
    with assms(1) w tasks_direct_awaited [of r p key w now s] show ?thesis
      by (auto simp: resume_def)
  qed
qed

text \<open>
  C6 fails in the code. \<open>requestTTS\<close> calls \<open>preloadWithSettings\<close> before its
  \<open>try\<close>, and \<open>preloadWithSettings\<close> calls \<open>ttsFn\<close> under no \<open>try\<close>: when
  \<open>ttsFn\<close> throws instead of returning a promise, a request for a text that is not
  in the cache ends with that exception, after the settings and the queue of its
  session were assigned, and no entry is written. The direct call of \<open>ttsFn\<close>, later
  in the same function, stands inside the \<open>try\<close>: there the same exception is
  logged and the request returns null.
\<close>

theorem request_rejects_when_ttsFn_throws:
  "initialized throwing_example
   \<and> tasks throwing_example = [Thrown]
   \<and> map c_kind (calls throwing_example) = [Threw]
   \<and> map fst (sessionSettings throwing_example) = [''s1'']
   \<and> sessionQueues throwing_example = [(''s1'', [])]
   \<and> cache throwing_example = []
   \<and> map fst (cache direct_throw_example) = [''aws::en::f::x'']
   \<and> tasks direct_throw_example = [AtBarrier ''aws'' ''en'' ''f'' ''y'' [0]]
   \<and> tasks (run [Resume 0 6 Throws] direct_throw_example) = [Returned None]
   \<and> map c_kind (calls (run [Resume 0 6 Throws] direct_throw_example))
        = [Chained, Chained, Threw]
   \<and> console (run [Resume 0 6 Throws] direct_throw_example)
        = [LogError ''Error in requestTTS:'']"
proof -
  have 1: "initialized throwing_example" by code_simp
  have 2: "tasks throwing_example = [Thrown]" by code_simp
  have 3: "map c_kind (calls throwing_example) = [Threw]" by code_simp
  have 4: "map fst (sessionSettings throwing_example) = [''s1'']" by code_simp
  have 5: "sessionQueues throwing_example = [(''s1'', [])]" by code_simp
  have 6: "cache throwing_example = []" by code_simp
  have 7: "map fst (cache direct_throw_example) = [''aws::en::f::x'']"
    by code_simp
  have 8: "tasks direct_throw_example = [AtBarrier ''aws'' ''en'' ''f'' ''y'' [0]]"
    by code_simp
  have 9: "tasks (run [Resume 0 6 Throws] direct_throw_example) = [Returned None]"
    by code_simp
  have 10: "map c_kind (calls (run [Resume 0 6 Throws] direct_throw_example))
        = [Chained, Chained, Threw]" by code_simp
  have 11: "console (run [Resume 0 6 Throws] direct_throw_example)
        = [LogError ''Error in requestTTS:'']" by code_simp
  from 1 2 3 4 5 6 7 8 9 10 11 show ?thesis by blast
qed

text \<open>
  An exception of \<open>ttsFn\<close> in the first part of \<open>requestTTS\<close> is the only way a
  request throws: in a run without it no request has thrown, whatever the generation
  calls do. A request is never stuck either: once the promises of its barrier have
  settled it moves on, and once the promise it then awaits has settled it returns.
  When the generation call that a request awaits (the promise of its cache entry, or
  its own direct call) rejects, resolves to null or times out, the request returns
  null.
\<close>

lemma request_absorbs_failures:
  "(\<not> list_ex request_throws es \<longrightarrow> Thrown \<notin> set (tasks (run es initial_state)))
   \<and> (Thrown \<notin> set (tasks s) \<and> \<not> request_throws e \<longrightarrow> Thrown \<notin> set (tasks (step e s)))
   \<and> (r < length (tasks s) \<and> tasks s ! r = AtBarrier a b c d waits
        \<and> list_all (is_settled s) waits
      \<longrightarrow> (\<exists>v. tasks (resume r now tts s) ! r = Returned v)
          \<or> (\<exists>q. tasks (resume r now tts s) ! r = AwaitItem q)
          \<or> (\<exists>q. tasks (resume r now tts s) ! r = AwaitDirect q (generateKey a b c d)))
   \<and> (r < length (tasks s) \<and> is_settled s p
        \<and> (tasks s ! r = AwaitItem p \<or> tasks s ! r = AwaitDirect p key)
      \<longrightarrow> (\<exists>v. tasks (resume r now tts s) ! r = Returned v))
   \<and> (generation_failed outcome \<and> r < length (tasks s) \<and> p < length (calls s)
        \<and> c_settled (calls s ! p) = None \<and> c_kind (calls s ! p) \<noteq> Threw
        \<and> (tasks s ! r = AwaitItem p \<or> tasks s ! r = AwaitDirect p key)
      \<longrightarrow> tasks (resume r now' tts (settle p outcome now s)) ! r = Returned None)"
proof -
  have 1: "\<not> list_ex request_throws es \<longrightarrow> Thrown \<notin> set (tasks (run es initial_state))"
    using no_throw_run [of initial_state es] by (simp add: initial_state_def)
  have 2: "Thrown \<notin> set (tasks s) \<and> \<not> request_throws e \<longrightarrow> Thrown \<notin> set (tasks (step e s))"
    by (simp add: no_throw_step)
  have 3: "r < length (tasks s) \<and> tasks s ! r = AtBarrier a b c d waits
        \<and> list_all (is_settled s) waits
      \<longrightarrow> (\<exists>v. tasks (resume r now tts s) ! r = Returned v)
          \<or> (\<exists>q. tasks (resume r now tts s) ! r = AwaitItem q)
          \<or> (\<exists>q. tasks (resume r now tts s) ! r = AwaitDirect q (generateKey a b c d))"
    using resume_passes_barrier [of r s a b c d waits now tts] by blast
  have 4: "r < length (tasks s) \<and> is_settled s p
        \<and> (tasks s ! r = AwaitItem p \<or> tasks s ! r = AwaitDirect p key)
      \<longrightarrow> (\<exists>v. tasks (resume r now tts s) ! r = Returned v)"
    using resume_returns [of r s p key now tts] by blast
  have 5: "generation_failed outcome \<and> r < length (tasks s) \<and> p < length (calls s)
        \<and> c_settled (calls s ! p) = None \<and> c_kind (calls s ! p) \<noteq> Threw
        \<and> (tasks s ! r = AwaitItem p \<or> tasks s ! r = AwaitDirect p key)
      \<longrightarrow> tasks (resume r now' tts (settle p outcome now s)) ! r = Returned None"
  proof
    assume h: "generation_failed outcome \<and> r < length (tasks s) \<and> p < length (calls s)
        \<and> c_settled (calls s ! p) = None \<and> c_kind (calls s ! p) \<noteq> Threw
        \<and> (tasks s ! r = AwaitItem p \<or> tasks s ! r = AwaitDirect p key)"
    then have "settled_of (settle p outcome now s) p = Some (Fulfilled None)"
      by (simp add: settle_failed_settled)
    with h show "tasks (resume r now' tts (settle p outcome now s)) ! r = Returned None"
      by (intro resume_awaiting_null [where p = p and key = key]) simp_all
  qed
  from 1 2 3 4 5 show ?thesis by blast
qed

lemma request_absorbs_failures_example:
  "generation_failed GenReject \<and> 0 < length (tasks awaiting_example)
   \<and> 0 < length (calls awaiting_example) \<and> c_settled (calls awaiting_example ! 0) = None
   \<and> c_kind (calls awaiting_example ! 0) = Chained
   \<and> tasks awaiting_example ! 0 = AwaitItem 0
   \<and> tasks (resume 0 4 Returns (settle 0 GenReject 3 awaiting_example)) ! 0 = Returned None
   \<and> Thrown \<notin> set (tasks (resume 0 4 Returns (settle 0 GenReject 3 awaiting_example)))"
proof -
  have 1: "generation_failed GenReject" by (simp add: generation_failed_def)
  have 2: "0 < length (tasks awaiting_example)" by code_simp
  have 3: "0 < length (calls awaiting_example)" by code_simp
  have 4: "c_settled (calls awaiting_example ! 0) = None" by code_simp
  have 5: "tasks awaiting_example ! 0 = AwaitItem 0" by code_simp
  have k: "c_kind (calls awaiting_example ! 0) = Chained" by code_simp
  have 6: "Thrown \<notin> set (tasks awaiting_example)"
    using request_absorbs_failures unfolding awaiting_example_def by simp
  from request_absorbs_failures [where s = awaiting_example and e = "Settle 0 GenReject 3"] 6
  have 7: "Thrown \<notin> set (tasks (settle 0 GenReject 3 awaiting_example))" by simp
  from request_absorbs_failures
         [where s = "settle 0 GenReject 3 awaiting_example" and e = "Resume 0 4 Returns"] 7
  have 8: "Thrown \<notin> set (tasks (resume 0 4 Returns (settle 0 GenReject 3 awaiting_example)))"
    by simp
  from request_absorbs_failures
         [where s = awaiting_example and outcome = GenReject and r = 0 and p = 0
            and now = 3 and now' = 4 and tts = Returns] 1 2 3 4 5 k
  have 9: "tasks (resume 0 4 Returns (settle 0 GenReject 3 awaiting_example)) ! 0 = Returned None"
    by simp
  from 1 2 3 4 5 k 8 9 show ?thesis by blast
qed

section \<open>Deduplication\<close>

lemma calls_withTimeout [simp]: "calls (snd (withTimeout outcome s)) = calls s"
  by (simp add: withTimeout_def warn_def log_error_def split: gen_outcome.splits)

lemma called_preloadWithSettings:
  "map call_key (calls (snd (preloadWithSettings a b c d sessionId now tts s))) =
     (if has_key (cache s) (generateKey a b c d) then map call_key (calls s)
      else map call_key (calls s) @ [generateKey a b c d])"
  by (simp add: preloadWithSettings_def Let_def new_call_def call_key_def
      split: tts_call.splits)

lemma called_set_settled [simp]:
  "map call_key (calls (set_settled p v s)) = map call_key (calls s)"
proof (cases "p < length (calls s)")
  case True
  then show ?thesis
    by (simp add: set_settled_def map_update call_key_def list_update_same_conv)
next
  case False
  then have "length (calls s) \<le> p" by simp
  then show ?thesis by (simp add: set_settled_def list_update_beyond)
qed

lemma called_settle [simp]:
  "map call_key (calls (settle p outcome now s)) = map call_key (calls s)"
  by (simp add: settle_def Let_def split_def chain_settled_def
      split: call_kind.splits settled.splits option.splits)

lemma calls_try_catch [simp]:
  "calls (snd (try_catch c outer_catch)) = calls (snd c)"
  "calls (snd (try_catch c inner_catch)) = calls (snd c)"
  by (cases "fst c"; simp add: try_catch_def outer_catch_def inner_catch_def log_error_def)+

lemma calls_finish [simp]: "calls (finish r c) = calls (snd c)"
  by (simp add: finish_def)

lemma calls_direct_body [simp]: "calls (snd (direct_body p key v now s)) = calls s"
  by (simp add: direct_body_def await_value_def split: settled.splits option.splits)

lemma calls_await_value [simp]: "calls (snd (await_value v s)) = calls s"
  by (simp add: await_value_def split: settled.splits)

lemma calls_item_awaited [simp]: "calls (item_awaited r v s) = calls s"
  by (simp add: item_awaited_def)

lemma calls_direct_awaited [simp]: "calls (direct_awaited r p key v now s) = calls s"
  by (simp add: direct_awaited_def)

lemma called_after_barrier:
  "map call_key (calls (after_barrier r a b c d tts s)) =
     (if has_key (cache s) (generateKey a b c d) then map call_key (calls s)
      else map call_key (calls s) @ [generateKey a b c d])"
  by (simp add: after_barrier_def Let_def new_call_def call_key_def has_key_def
      split: option.splits tts_call.splits)

lemma called_resume:
  "map call_key (calls (resume r now tts s)) = map call_key (calls s)
   \<or> (\<exists>k. \<not> has_key (cache s) k
        \<and> map call_key (calls (resume r now tts s)) = map call_key (calls s) @ [k])"
  by (auto simp: resume_def called_after_barrier split: task.splits option.splits)

lemma calls_simple [simp]:
  "calls (initialize f a b c s) = calls s"
  "calls (uninitialize s) = calls s"
  "calls (snd (getCacheStats s)) = calls s"
  "calls (snd (hasCompletedItem sv l v t s)) = calls s"
  "calls (snd (hasPending sv l v t s)) = calls s"
  "calls (setSessionSettings sid sv l v s) = calls s"
  by (simp_all add: initialize_def Let_def uninitialize_def getCacheStats_def
      hasCompletedItem_def hasPending_def setSessionSettings_def warn_def split: option.splits)

lemma called_step:
  "map call_key (calls (step e s)) = map call_key (calls s)
   \<or> (\<exists>k. \<not> has_key (cache s) k
        \<and> map call_key (calls (step e s)) = map call_key (calls s) @ [k])"
proof (cases e)
  case (PreloadTTS t sid now tts)
  then show ?thesis
    by (auto simp: preloadTTS_def warn_def called_preloadWithSettings split: option.splits)
next
  case (RequestTTS a b c d sid now tts)
  then show ?thesis
    by (auto simp: requestTTS_def Let_def split_def warn_def called_preloadWithSettings
        setSessionSettings_def split: signal.splits)
next
  case (Resume r now tts)
  with called_resume [of r now tts s] show ?thesis by simp
qed simp_all

lemma invocations_step_le: "invocations key (step e s) \<le> Suc (invocations key s)"
  using called_step [of e s] by (auto simp: invocations_def)

lemma invocations_step_cached:
  "has_key (cache s) key \<Longrightarrow> invocations key (step e s) = invocations key s"
  using called_step [of e s] by (auto simp: invocations_def)

lemma invocations_run_cached:
  "cached_throughout key es s \<Longrightarrow> invocations key (run es s) = invocations key s"
  unfolding run_def
  by (induction es arbitrary: s) (simp_all add: invocations_step_cached)

text \<open>
  C4, as stated, fails for \<open>requestTTS\<close>: a request issued while the entry of its
  key is pending checks the cache again after the barrier. With two preloads in flight
  under an entry limit of one, the second completes first and is evicted at once; a
  request for it that was waiting for the first then finds no entry and calls the
  generation function a second time.
\<close>

theorem request_regenerates_after_eviction:
  "fst (hasPending ''aws'' ''en'' ''f'' ''y'' pending_example)
   \<and> invocations ''aws::en::f::y'' pending_example = 1
   \<and> invocations ''aws::en::f::y''
       (run [RequestTTS ''aws'' ''en'' ''f'' ''y'' ''s1'' 3 Returns,
             Settle 1 (GenResolve (Some (audio ''Y''))) 4,
             Settle 0 (GenResolve (Some (audio ''X''))) 5,
             Resume 0 6 Returns] pending_example) = 2"
proof -
  have 1: "fst (hasPending ''aws'' ''en'' ''f'' ''y'' pending_example)" by code_simp
  have 2: "invocations ''aws::en::f::y'' pending_example = 1" by code_simp
  have 3: "invocations ''aws::en::f::y''
       (run [RequestTTS ''aws'' ''en'' ''f'' ''y'' ''s1'' 3 Returns,
             Settle 1 (GenResolve (Some (audio ''Y''))) 4,
             Settle 0 (GenResolve (Some (audio ''X''))) 5,
             Resume 0 6 Returns] pending_example) = 2" by code_simp
  from 1 2 3 show ?thesis by blast
qed

text \<open>
  C4, amended: \<open>preloadWithSettings\<close> changes nothing when the key is in the cache,
  whatever the status of the entry. An event starts at most one generation call, and
  none for a key that is in the cache when the event happens; so the number of calls
  for a key does not change along any sequence of events throughout which the key stays
  in the cache. (A request issued while the entry was there starts a new call only if
  the entry is gone when the request gets past its barrier.)
\<close>

theorem no_generation_while_cached:
  "(has_key (cache s) (generateKey service language voice text) \<longrightarrow>
      preloadWithSettings service language voice text sessionId now tts s = (Return, s))
   \<and> invocations key (step e s) \<le> Suc (invocations key s)
   \<and> (has_key (cache s) key \<longrightarrow> invocations key (step e s) = invocations key s)
   \<and> (cached_throughout key es s \<longrightarrow> invocations key (run es s) = invocations key s)"
  by (simp add: preloadWithSettings_def invocations_step_le invocations_step_cached
      invocations_run_cached)

theorem no_generation_while_cached_witness:
  "has_key (cache configured_example) (generateKey ''aws'' ''en-US'' ''female'' ''Hello world'')
   \<and> preloadWithSettings ''aws'' ''en-US'' ''female'' ''Hello world'' ''s1'' 2 Returns
         configured_example
       = (Return, configured_example)
   \<and> cached_throughout ''aws::en-US::female::Hello world''
       [PreloadTTS ''Hello world'' ''s1'' 2 Returns,
        RequestTTS ''aws'' ''en-US'' ''female'' ''Hello world'' ''s1'' 3 Returns,
        Settle 0 (GenResolve (Some (audio ''H''))) 4, Resume 0 5 Returns, Resume 0 6 Returns]
       configured_example
   \<and> invocations ''aws::en-US::female::Hello world'' configured_example = 1
   \<and> invocations ''aws::en-US::female::Hello world''
       (run [PreloadTTS ''Hello world'' ''s1'' 2 Returns,
             RequestTTS ''aws'' ''en-US'' ''female'' ''Hello world'' ''s1'' 3 Returns,
             Settle 0 (GenResolve (Some (audio ''H''))) 4, Resume 0 5 Returns, Resume 0 6 Returns]
          configured_example) = 1"
proof -
  let ?es = "[PreloadTTS ''Hello world'' ''s1'' 2 Returns,
        RequestTTS ''aws'' ''en-US'' ''female'' ''Hello world'' ''s1'' 3 Returns,
        Settle 0 (GenResolve (Some (audio ''H''))) 4, Resume 0 5 Returns, Resume 0 6 Returns]"
  have 1: "has_key (cache configured_example)
             (generateKey ''aws'' ''en-US'' ''female'' ''Hello world'')" by code_simp
  have 2: "cached_throughout ''aws::en-US::female::Hello world'' ?es configured_example"
    by code_simp
  have 3: "invocations ''aws::en-US::female::Hello world'' configured_example = 1"
    by code_simp
  from no_generation_while_cached
         [of configured_example "''aws''" "''en-US''" "''female''" "''Hello world''"
             "''s1''" 2 Returns "''aws::en-US::female::Hello world''" _ ?es] 1 2 3
  show ?thesis by simp
qed

section \<open>Failed generation calls\<close>

lemma entry_throughout_cached:
  "entry_throughout key item es s \<Longrightarrow> cached_throughout key es s"
  by (induction es arbitrary: s) (simp_all add: has_key_def)

lemma entry_throughout_final:
  "entry_throughout key item es s \<Longrightarrow> map_of (cache (run es s)) key = Some item"
  unfolding run_def by (induction es arbitrary: s) simp_all

text \<open>
  C7, as stated, fails: the entry written for a failed call goes through the eviction
  that follows every \<open>setCacheItem\<close>, and it is not pending. With two preloads in
  flight under an entry limit of one, the failure of the first removes its entry at
  once, and the cache holds no entry for its key. The next preload of that text calls
  the generation function again, and the key is pending again.
\<close>

theorem failed_preload_evicted:
  "c_kind (calls pending_example ! 0) = Chained
   \<and> c_settled (calls pending_example ! 0) = None
   \<and> call_key (calls pending_example ! 0) = ''aws::en::f::x''
   \<and> map_of (cache pending_example) ''aws::en::f::x'' = Some (pending_item 0 1)
   \<and> generation_failed GenReject
   \<and> map_of (cache (settle 0 GenReject 3 pending_example)) ''aws::en::f::x'' = None
   \<and> invocations ''aws::en::f::x'' (settle 0 GenReject 3 pending_example) = 1
   \<and> invocations ''aws::en::f::x''
        (run [PreloadTTS ''x'' ''s1'' 4 Returns] (settle 0 GenReject 3 pending_example)) = 2
   \<and> fst (hasPending ''aws'' ''en'' ''f'' ''x''
             (run [PreloadTTS ''x'' ''s1'' 4 Returns] (settle 0 GenReject 3 pending_example)))"
proof -
  have 1: "c_kind (calls pending_example ! 0) = Chained" by code_simp
  have 2: "c_settled (calls pending_example ! 0) = None" by code_simp
  have 3: "call_key (calls pending_example ! 0) = ''aws::en::f::x''" by code_simp
  have 4: "map_of (cache pending_example) ''aws::en::f::x'' = Some (pending_item 0 1)"
    by code_simp
  have 5: "generation_failed GenReject" by (simp add: generation_failed_def)
  have 6: "map_of (cache (settle 0 GenReject 3 pending_example)) ''aws::en::f::x'' = None"
    by code_simp
  have 7: "invocations ''aws::en::f::x'' (settle 0 GenReject 3 pending_example) = 1"
    by code_simp
  have 8: "invocations ''aws::en::f::x''
        (run [PreloadTTS ''x'' ''s1'' 4 Returns] (settle 0 GenReject 3 pending_example)) = 2"
    by code_simp
  have 9: "fst (hasPending ''aws'' ''en'' ''f'' ''x''
             (run [PreloadTTS ''x'' ''s1'' 4 Returns] (settle 0 GenReject 3 pending_example)))"
    by code_simp
  from 1 2 3 4 5 6 7 8 9 show ?thesis by blast
qed

text \<open>
  C7, amended: when a generation call started by \<open>preloadWithSettings\<close> (from
  \<open>preloadTTS\<close>, or from \<open>requestTTS\<close> for a key it has to enqueue) rejects,
  resolves to null or times out, \<open>setCacheItem\<close> is called with an entry of
  status \<open>Error\<close> and size 0 for its key, and the promise yields null. Right after
  that the cache holds that entry, or no entry for the key when the eviction that
  follows removed it; it holds that entry whenever the pending entry was still there
  and the limits held. In both cases \<open>hasCompletedItem\<close> and \<open>hasPending\<close>
  return false for the key right after the failure, and handling the failure starts
  no generation call. Along every sequence of events throughout which the failed entry
  stays in the cache, \<open>hasCompletedItem\<close> and \<open>hasPending\<close> keep returning
  false for the key and no generation call is made for it. Nothing is said of the time
  after the entry has left the cache.
\<close>

theorem failed_preload_recorded:
  assumes "p < length (calls s)" and "c_settled (calls s ! p) = None"
    and "c_kind (calls s ! p) = Chained" and "generation_failed outcome"
  shows "(map_of (cache (settle p outcome now s)) (call_key (calls s ! p)) = Some (error_item p now)
          \<or> map_of (cache (settle p outcome now s)) (call_key (calls s ! p)) = None)
       \<and> (\<not> over_limits s \<and> map_of (cache s) (call_key (calls s ! p)) = Some (pending_item p created)
            \<longrightarrow> map_of (cache (settle p outcome now s)) (call_key (calls s ! p))
                  = Some (error_item p now))
       \<and> status (error_item p now) = Error \<and> size_bytes (error_item p now) = 0
       \<and> \<not> fst (hasCompletedItem (c_service (calls s ! p)) (c_language (calls s ! p))
                  (c_voice (calls s ! p)) (c_text (calls s ! p)) (settle p outcome now s))
       \<and> \<not> fst (hasPending (c_service (calls s ! p)) (c_language (calls s ! p))
                  (c_voice (calls s ! p)) (c_text (calls s ! p)) (settle p outcome now s))
       \<and> settled_of (settle p outcome now s) p = Some (Fulfilled None)
       \<and> length (calls (settle p outcome now s)) = length (calls s)
       \<and> (entry_throughout (call_key (calls s ! p)) (error_item p now) es
             (settle p outcome now s)
           \<longrightarrow> \<not> fst (hasCompletedItem (c_service (calls s ! p)) (c_language (calls s ! p))
                        (c_voice (calls s ! p)) (c_text (calls s ! p))
                        (run es (settle p outcome now s)))
             \<and> \<not> fst (hasPending (c_service (calls s ! p)) (c_language (calls s ! p))
                        (c_voice (calls s ! p)) (c_text (calls s ! p))
                        (run es (settle p outcome now s)))
             \<and> invocations (call_key (calls s ! p)) (run es (settle p outcome now s))
                 = invocations (call_key (calls s ! p)) s)"
proof -
  let ?key = "call_key (calls s ! p)"
  let ?s1 = "snd (withTimeout outcome s)"
  let ?s2 = "setCacheItem ?key (error_item p now) ?s1"
  let ?s' = "settle p outcome now s"
  have eq: "?s' = set_settled p (Fulfilled None) ?s2"
    using assms by (rule settle_failed_chained)
  have c: "cache ?s' = cache ?s2"
    by (simp add: eq set_settled_def)
  have a: "map_of (cache ?s2) ?key = Some (error_item p now) \<or> map_of (cache ?s2) ?key = None"
    using map_of_setCacheItem_same [of ?key "error_item p now" ?s1] by auto
  have b: "\<not> over_limits s \<and> map_of (cache s) ?key = Some (pending_item p created)
            \<longrightarrow> map_of (cache ?s2) ?key = Some (error_item p now)"
  proof
    assume h: "\<not> over_limits s \<and> map_of (cache s) ?key = Some (pending_item p created)"
    then have "\<not> over_limits ?s1" by (simp add: over_limits_def)
    moreover from h have "map_of (cache ?s1) ?key = Some (pending_item p created)" by simp
    moreover have "size_bytes (error_item p now) \<le> size_bytes (pending_item p created)"
      by (simp add: error_item_def pending_item_def)
    ultimately show "map_of (cache ?s2) ?key = Some (error_item p now)"
      by (rule setCacheItem_within_limits)
  qed
  have k: "generateKey (c_service (calls s ! p)) (c_language (calls s ! p))
             (c_voice (calls s ! p)) (c_text (calls s ! p)) = ?key"
    by (simp add: call_key_def)
  have d: "\<not> fst (hasCompletedItem (c_service (calls s ! p)) (c_language (calls s ! p))
                  (c_voice (calls s ! p)) (c_text (calls s ! p)) ?s')"
    using a by (auto simp: hasCompletedItem_def k c error_item_def)
  have e: "\<not> fst (hasPending (c_service (calls s ! p)) (c_language (calls s ! p))
                  (c_voice (calls s ! p)) (c_text (calls s ! p)) ?s')"
    using a by (auto simp: hasPending_def k c error_item_def)
  have f: "settled_of ?s' p = Some (Fulfilled None)"
    using assms(1) by (simp add: eq set_settled_def settled_of_def)
  have g: "length (calls ?s') = length (calls s)"
    by (simp add: eq set_settled_def)
  have i: "invocations ?key ?s' = invocations ?key s"
    by (simp add: invocations_def)
  have h: "entry_throughout ?key (error_item p now) es ?s'
           \<longrightarrow> \<not> fst (hasCompletedItem (c_service (calls s ! p)) (c_language (calls s ! p))
                        (c_voice (calls s ! p)) (c_text (calls s ! p)) (run es ?s'))
             \<and> \<not> fst (hasPending (c_service (calls s ! p)) (c_language (calls s ! p))
                        (c_voice (calls s ! p)) (c_text (calls s ! p)) (run es ?s'))
             \<and> invocations ?key (run es ?s') = invocations ?key s"
  proof
    assume kept: "entry_throughout ?key (error_item p now) es ?s'"
    then have m: "map_of (cache (run es ?s')) ?key = Some (error_item p now)"
      by (rule entry_throughout_final)
    from kept have "cached_throughout ?key es ?s'" by (rule entry_throughout_cached)
    then have "invocations ?key (run es ?s') = invocations ?key ?s'"
      by (rule invocations_run_cached)
    with i m
    show "\<not> fst (hasCompletedItem (c_service (calls s ! p)) (c_language (calls s ! p))
                        (c_voice (calls s ! p)) (c_text (calls s ! p)) (run es ?s'))
             \<and> \<not> fst (hasPending (c_service (calls s ! p)) (c_language (calls s ! p))
                        (c_voice (calls s ! p)) (c_text (calls s ! p)) (run es ?s'))
             \<and> invocations ?key (run es ?s') = invocations ?key s"
      by (simp add: hasCompletedItem_def hasPending_def k error_item_def)
  qed
  from a b d e f g h show ?thesis by (simp add: c error_item_def)
qed

theorem failed_preload_witness:
  "0 < length (calls configured_example)
   \<and> c_settled (calls configured_example ! 0) = None
   \<and> c_kind (calls configured_example ! 0) = Chained
   \<and> generation_failed GenTimeout
   \<and> call_key (calls configured_example ! 0) = ''aws::en-US::female::Hello world''
   \<and> map_of (cache (settle 0 GenTimeout 7 configured_example))
        ''aws::en-US::female::Hello world'' = Some (error_item 0 7)
   \<and> \<not> fst (hasCompletedItem ''aws'' ''en-US'' ''female'' ''Hello world''
              (settle 0 GenTimeout 7 configured_example))
   \<and> \<not> fst (hasPending ''aws'' ''en-US'' ''female'' ''Hello world''
              (settle 0 GenTimeout 7 configured_example))
   \<and> entry_throughout ''aws::en-US::female::Hello world'' (error_item 0 7)
        [RequestTTS ''aws'' ''en-US'' ''female'' ''Hello world'' ''s1'' 8 Returns,
         Resume 0 9 Returns, Resume 0 10 Returns, PreloadTTS ''Hello world'' ''s1'' 11 Returns]
        (settle 0 GenTimeout 7 configured_example)
   \<and> tasks (run [RequestTTS ''aws'' ''en-US'' ''female'' ''Hello world'' ''s1'' 8 Returns,
                 Resume 0 9 Returns, Resume 0 10 Returns,
                 PreloadTTS ''Hello world'' ''s1'' 11 Returns]
               (settle 0 GenTimeout 7 configured_example)) = [Returned None]
   \<and> \<not> fst (hasCompletedItem ''aws'' ''en-US'' ''female'' ''Hello world''
              (run [RequestTTS ''aws'' ''en-US'' ''female'' ''Hello world'' ''s1'' 8 Returns,
                    Resume 0 9 Returns, Resume 0 10 Returns,
                    PreloadTTS ''Hello world'' ''s1'' 11 Returns]
                 (settle 0 GenTimeout 7 configured_example)))
   \<and> \<not> fst (hasPending ''aws'' ''en-US'' ''female'' ''Hello world''
              (run [RequestTTS ''aws'' ''en-US'' ''female'' ''Hello world'' ''s1'' 8 Returns,
                    Resume 0 9 Returns, Resume 0 10 Returns,
                    PreloadTTS ''Hello world'' ''s1'' 11 Returns]
                 (settle 0 GenTimeout 7 configured_example)))
   \<and> invocations ''aws::en-US::female::Hello world'' configured_example = 1
   \<and> invocations ''aws::en-US::female::Hello world''
        (run [RequestTTS ''aws'' ''en-US'' ''female'' ''Hello world'' ''s1'' 8 Returns,
              Resume 0 9 Returns, Resume 0 10 Returns,
              PreloadTTS ''Hello world'' ''s1'' 11 Returns]
           (settle 0 GenTimeout 7 configured_example)) = 1"
proof -
  let ?es = "[RequestTTS ''aws'' ''en-US'' ''female'' ''Hello world'' ''s1'' 8 Returns,
              Resume 0 9 Returns, Resume 0 10 Returns,
              PreloadTTS ''Hello world'' ''s1'' 11 Returns]"
  have 1: "0 < length (calls configured_example)" by code_simp
  have 2: "c_settled (calls configured_example ! 0) = None" by code_simp
  have 3: "c_kind (calls configured_example ! 0) = Chained" by code_simp
  have 4: "generation_failed GenTimeout" by (simp add: generation_failed_def)
  have 5: "call_key (calls configured_example ! 0) = ''aws::en-US::female::Hello world''"
    by code_simp
  have 6: "\<not> over_limits configured_example" by code_simp
  have 7: "map_of (cache configured_example) ''aws::en-US::female::Hello world''
             = Some (pending_item 0 1)" by code_simp
  have 8: "c_service (calls configured_example ! 0) = ''aws''"
    "c_language (calls configured_example ! 0) = ''en-US''"
    "c_voice (calls configured_example ! 0) = ''female''"
    "c_text (calls configured_example ! 0) = ''Hello world''"
    by code_simp+
  have 9: "entry_throughout ''aws::en-US::female::Hello world'' (error_item 0 7) ?es
             (settle 0 GenTimeout 7 configured_example)" by code_simp
  have 10: "tasks (run ?es (settle 0 GenTimeout 7 configured_example)) = [Returned None]"
    by code_simp
  have 11: "invocations ''aws::en-US::female::Hello world'' configured_example = 1"
    by code_simp
  from failed_preload_recorded [OF 1 2 3 4, where now = 7 and created = 1 and es = ?es]
    5 6 7 8 9 10 11 1 2 3 4
  show ?thesis by simp
qed

section \<open>The barrier of a session\<close>

lemma is_settled_new_call [simp]:
  "is_settled (new_call kind a b c d s) p = is_settled s p"
  by (auto simp: is_settled_def settled_of_def new_call_def nth_append split: if_splits)

lemma is_settled_set_settled:
  "is_settled (set_settled p' v s) p \<longleftrightarrow> is_settled s p \<or> (p' = p \<and> p < length (calls s))"
  by (cases "p' = p") (auto simp: is_settled_def settled_of_def set_settled_def split: if_splits)

lemma is_settled_updates [simp]:
  "is_settled (s\<lparr>tasks := ts\<rparr>) p = is_settled s p"
  "is_settled (s\<lparr>sessionQueues := q\<rparr>) p = is_settled s p"
  "is_settled (s\<lparr>sessionSettings := ss\<rparr>) p = is_settled s p"
  "is_settled (s\<lparr>pendingPromises := pp\<rparr>) p = is_settled s p"
  "is_settled (warn msg s) p = is_settled s p"
  "is_settled (log_error msg s) p = is_settled s p"
  "is_settled (setCacheItem key item s) p = is_settled s p"
  "is_settled (snd (withTimeout outcome s)) p = is_settled s p"
  by (simp_all add: is_settled_def settled_of_def warn_def log_error_def)

lemma is_settled_setSessionSettings [simp]:
  "is_settled (setSessionSettings sid a b c s) p = is_settled s p"
  by (simp add: setSessionSettings_def)

lemma is_settled_preloadWithSettings [simp]:
  "is_settled (snd (preloadWithSettings a b c d sessionId now tts s)) p = is_settled s p"
  by (simp add: preloadWithSettings_def Let_def split: tts_call.splits)

lemma is_settled_preloadTTS [simp]:
  "is_settled (snd (preloadTTS t sessionId now tts s)) p = is_settled s p"
  by (simp add: preloadTTS_def split: option.splits)

lemma is_settled_requestTTS [simp]:
  "is_settled (requestTTS a b c d sessionId now tts s) p = is_settled s p"
  by (simp add: requestTTS_def Let_def split_def split: signal.splits)

lemma is_settled_settle_other:
  "p' \<noteq> p \<Longrightarrow> is_settled (settle p' outcome now s) p = is_settled s p"
  by (simp add: settle_def Let_def split_def chain_settled_def is_settled_set_settled
      split: call_kind.splits settled.splits option.splits)

lemma is_settled_settle_same:
  "is_settled s p \<Longrightarrow> is_settled (settle p outcome now s) p"
  by (simp add: settle_def Let_def split_def chain_settled_def is_settled_set_settled
      split: call_kind.splits settled.splits option.splits)

lemma is_settled_finish [simp]: "is_settled (finish r c) p = is_settled (snd c) p"
  by (simp add: is_settled_def settled_of_def)

lemma is_settled_item_awaited [simp]: "is_settled (item_awaited r v s) p = is_settled s p"
  by (simp add: is_settled_def settled_of_def)

lemma is_settled_direct_awaited [simp]:
  "is_settled (direct_awaited r q key v now s) p = is_settled s p"
  by (simp add: is_settled_def settled_of_def)

lemma is_settled_simple [simp]:
  "is_settled (initialize f a b c s) p = is_settled s p"
  "is_settled (uninitialize s) p = is_settled s p"
  "is_settled (snd (getCacheStats s)) p = is_settled s p"
  "is_settled (snd (hasCompletedItem sv l v t s)) p = is_settled s p"
  "is_settled (snd (hasPending sv l v t s)) p = is_settled s p"
  by (simp_all add: is_settled_def settled_of_def)

lemma is_settled_resume [simp]: "is_settled (resume r now tts s) p = is_settled s p"
  by (simp add: resume_def after_barrier_def Let_def try_catch_def outer_catch_def
      split: task.splits option.splits tts_call.splits)

lemma is_settled_step: "is_settled s p \<Longrightarrow> is_settled (step e s) p"
proof (cases e)
  case (Settle p' outcome now)
  assume "is_settled s p"
  with Settle show ?thesis
    by (cases "p' = p") (simp_all add: is_settled_settle_other is_settled_settle_same)
qed simp_all

lemma only_settle_settles:
  assumes "\<not> is_settled s p" and "is_settled (step e s) p"
  shows "\<exists>outcome t. e = Settle p outcome t"
proof (cases e)
  case (Settle p' outcome now)
  with assms show ?thesis
    by (cases "p' = p") (simp_all add: is_settled_settle_other)
qed (use assms in simp_all)

lemma run_Cons [simp]: "run (e # es) s = run es (step e s)"
  by (simp add: run_def)

lemma run_Nil [simp]: "run [] s = s"
  by (simp add: run_def)

lemma run_snoc: "run (es @ [e]) s = step e (run es s)"
  by (simp add: run_def)

lemma is_settled_run: "is_settled s p \<Longrightarrow> is_settled (run es s) p"
  by (induction es arbitrary: s) (simp_all add: is_settled_step)

lemma first_settle:
  "\<not> is_settled s p \<Longrightarrow> is_settled (run es s) p \<Longrightarrow>
   \<exists>n<length es. \<exists>outcome t. es ! n = Settle p outcome t \<and> \<not> is_settled (run (take n es) s) p"
proof (induction es arbitrary: s)
  case Nil
  then show ?case by simp
next
  case (Cons e es)
  show ?case
  proof (cases "is_settled (step e s) p")
    case True
    with Cons.prems only_settle_settles [of s p e]
    obtain outcome t where "e = Settle p outcome t" by blast
    with Cons.prems show ?thesis by (intro exI [of _ 0]) simp
  next
    case False
    with Cons.prems Cons.IH [of "step e s"]
    obtain n outcome t where "n < length es" "es ! n = Settle p outcome t"
      "\<not> is_settled (run (take n es) (step e s)) p"
      by auto
    then show ?thesis by (intro exI [of _ "Suc n"]) simp
  qed
qed

lemma length_tasks_step: "length (tasks s) \<le> length (tasks (step e s))"
proof (cases e)
  case (RequestTTS a b c d sid now tts)
  with tasks_requestTTS [of a b c d sid now tts s] show ?thesis by auto
next
  case (Resume r now tts)
  with tasks_resume [of r now tts s] show ?thesis by auto
qed simp_all

lemma task_unchanged_step:
  assumes "r < length (tasks s)" and "\<forall>now tts. e \<noteq> Resume r now tts"
  shows "tasks (step e s) ! r = tasks s ! r"
proof (cases e)
  case (RequestTTS a b c d sid now tts)
  with assms tasks_requestTTS [of a b c d sid now tts s] show ?thesis
    by (auto simp: nth_append)
next
  case (Resume r' now tts)
  with assms have "r' \<noteq> r" by auto
  with Resume tasks_resume [of r' now tts s] show ?thesis by auto
qed simp_all

lemma resume_blocked:
  assumes "r < length (tasks s)" and "tasks s ! r = AtBarrier a b c d waits"
    and "p \<in> set waits" and "\<not> is_settled s p"
  shows "resume r now tts s = s"
  using assms by (auto simp: resume_def list_all_iff)

lemma resume_thrown:
  "r < length (tasks s) \<Longrightarrow> tasks s ! r = Thrown \<Longrightarrow> resume r now tts s = s"
  by (simp add: resume_def)

lemma held_back_step: "held_back r p s \<Longrightarrow> held_back r p (step e s)"
proof -
  assume h: "held_back r p s"
  then have r: "r < length (tasks s)" by (simp add: held_back_def)
  with length_tasks_step [of s e] have r': "r < length (tasks (step e s))" by simp
  show ?thesis
  proof (cases "is_settled s p")
    case True
    with r' show ?thesis by (simp add: held_back_def is_settled_step)
  next
    case False
    with h have w: "tasks s ! r = Thrown
        \<or> (\<exists>a b c d waits. tasks s ! r = AtBarrier a b c d waits \<and> p \<in> set waits)"
      by (auto simp: held_back_def)
    have same: "tasks (step e s) ! r = tasks s ! r"
    proof (cases "\<exists>now tts. e = Resume r now tts")
      case True
      then obtain now tts where e: "e = Resume r now tts" by blast
      from w have "resume r now tts s = s"
      proof
        assume "tasks s ! r = Thrown"
        with r show ?thesis by (rule resume_thrown)
      next
        assume "\<exists>a b c d waits. tasks s ! r = AtBarrier a b c d waits \<and> p \<in> set waits"
        then obtain a b c d waits where
          "tasks s ! r = AtBarrier a b c d waits" "p \<in> set waits" by blast
        with r show ?thesis using False by (intro resume_blocked [where p = p]) 
      qed
      with e show ?thesis by simp
    next
      case no: False
      with r show ?thesis by (intro task_unchanged_step) auto
    qed
    with w r' show ?thesis by (auto simp: held_back_def)
  qed
qed

lemma held_back_run: "held_back r p s \<Longrightarrow> held_back r p (run es s)"
  by (induction es arbitrary: s) (simp_all add: held_back_step)

lemma returned_after_settled:
  assumes "held_back r p s" and "tasks (run es s) ! r = Returned v"
  shows "is_settled (run es s) p"
  using held_back_run [OF assms(1), of es] assms(2) by (auto simp: held_back_def)

lemma static_set_settled [simp]:
  "map call_static (calls (set_settled p v s)) = map call_static (calls s)"
proof (cases "p < length (calls s)")
  case True
  then show ?thesis
    by (simp add: set_settled_def map_update call_static_def call_key_def
        list_update_same_conv)
next
  case False
  then have "length (calls s) \<le> p" by simp
  then show ?thesis by (simp add: set_settled_def list_update_beyond)
qed

lemma static_settle [simp]:
  "map call_static (calls (settle p outcome now s)) = map call_static (calls s)"
  by (simp add: settle_def Let_def split_def chain_settled_def
      split: call_kind.splits settled.splits option.splits)

lemma static_step: "\<exists>cs. map call_static (calls (step e s)) = map call_static (calls s) @ cs"
proof (cases e)
  case (PreloadTTS t sid now tts)
  then show ?thesis
    by (auto simp: preloadTTS_def warn_def preloadWithSettings_def Let_def new_call_def
        split: option.splits tts_call.splits)
next
  case (RequestTTS a b c d sid now tts)
  then show ?thesis
    by (auto simp: requestTTS_def Let_def split_def warn_def preloadWithSettings_def
        new_call_def setSessionSettings_def split: signal.splits tts_call.splits)
next
  case (Resume r now tts)
  then show ?thesis
    by (auto simp: resume_def after_barrier_def Let_def new_call_def
        split: task.splits option.splits tts_call.splits)
qed simp_all

lemma static_run: "\<exists>cs. map call_static (calls (run es s)) = map call_static (calls s) @ cs"
proof (induction es arbitrary: s)
  case Nil
  then show ?case by simp
next
  case (Cons e es)
  obtain cs where 1: "map call_static (calls (step e s)) = map call_static (calls s) @ cs"
    using static_step [of e s] by blast
  obtain ds where "map call_static (calls (run es (step e s))) =
                     map call_static (calls (step e s)) @ ds"
    using Cons.IH [of "step e s"] by blast
  with 1 show ?case by simp
qed

lemma call_static_run:
  assumes "p < length (calls s)"
  shows "p < length (calls (run es s)) \<and> call_static (calls (run es s) ! p) = call_static (calls s ! p)"
proof -
  obtain cs where eq: "map call_static (calls (run es s)) = map call_static (calls s) @ cs"
    using static_run [of es s] by blast
  then have "length (calls (run es s)) = length (calls s) + length cs"
    by (metis length_append length_map)
  with assms have len: "p < length (calls (run es s))" by simp
  from eq have "map call_static (calls (run es s)) ! p = (map call_static (calls s) @ cs) ! p"
    by simp
  with assms len show ?thesis by (simp add: nth_append)
qed

lemma settle_chained_terminal:
  assumes "p < length (calls s)" and "c_settled (calls s ! p) = None"
    and "c_kind (calls s ! p) = Chained"
    and "map_of (cache (settle p outcome now s)) (call_key (calls s ! p)) = Some it"
  shows "status it \<noteq> Pending"
proof -
  let ?key = "call_key (calls s ! p)"
  let ?s1 = "snd (withTimeout outcome s)"
  have "\<exists>item. status item \<noteq> Pending
          \<and> cache (settle p outcome now s) = cache (setCacheItem ?key item ?s1)"
  proof (cases "fst (withTimeout outcome s)")
    case (Fulfilled res)
    show ?thesis
    proof (cases res)
      case None
      with Fulfilled assms(1-3) show ?thesis
        by (intro exI [of _ "error_item p now"])
           (simp add: settle_def Let_def split_def chain_settled_def set_settled_def
              call_key_def error_item_def)
    next
      case (Some r)
      with Fulfilled assms(1-3) show ?thesis
        by (intro exI [of _ "completed_item p r now"])
           (simp add: settle_def Let_def split_def chain_settled_def set_settled_def
              call_key_def completed_item_def)
    qed
  next
    case Rejected
    with assms(1-3) show ?thesis
      by (intro exI [of _ "error_item p now"])
         (simp add: settle_def Let_def split_def chain_settled_def set_settled_def
            call_key_def error_item_def)
  qed
  then obtain item where item: "status item \<noteq> Pending"
    and c: "cache (settle p outcome now s) = cache (setCacheItem ?key item ?s1)"
    by blast
  from map_of_setCacheItem_same [of ?key item ?s1] assms(4) c have "it = item" by auto
  with item show ?thesis by simp
qed

lemma waits_contains:
  assumes "map_of (sessionQueues s) sessionId = Some queue"
    and "B \<in> set queue" and "A \<in> set (takeWhile (\<lambda>k. k \<noteq> B) queue)"
    and "map_of (cache s) A = Some item"
  shows "promise item \<in> set (waitForPrecedingItems sessionId B s)"
proof -
  let ?n = "length (takeWhile (\<lambda>k. k \<noteq> B) queue)"
  from assms(3) have pos: "0 < ?n" by (cases "takeWhile (\<lambda>k. k \<noteq> B) queue") auto
  have tk: "take ?n queue = takeWhile (\<lambda>k. k \<noteq> B) queue"
    by (rule takeWhile_eq_take [symmetric])
  from assms pos show ?thesis
    by (simp add: waitForPrecedingItems_def indexOf_def Let_def tk) force
qed

lemma in_fold_remove1:
  "x \<in> set q \<Longrightarrow> x \<notin> set ks \<Longrightarrow> x \<in> set (fold remove1 ks q)"
  by (induction ks arbitrary: q) auto

lemma set_fold_remove1: "set (fold remove1 ks q) \<subseteq> set q"
proof (induction ks arbitrary: q)
  case Nil
  then show ?case by simp
next
  case (Cons k ks)
  from Cons.IH [of "remove1 k q"] set_remove1_subset [of k q] show ?case by auto
qed

lemma setCacheItem_keeps_pending:
  assumes "distinct (map fst (cache s))" and "map_of (cache s) A = Some item"
    and "status item = Pending" and "A \<noteq> key"
  shows "\<exists>ks. A \<notin> set ks
           \<and> map_of (cache (setCacheItem key it s)) A = Some item
           \<and> sessionQueues (setCacheItem key it s) =
               map (\<lambda>(sessionId, queue). (sessionId, fold remove1 ks queue)) (sessionQueues s)"
proof -
  let ?put = "s\<lparr>cache := AList.update key it (cache s),
          currentSize := currentSize s
            - (case map_of (cache s) key of Some oldItem \<Rightarrow> size_bytes oldItem | None \<Rightarrow> 0)
            + size_bytes it\<rparr>"
  obtain n where eq: "enforceCacheLimits ?put = remove_entries (take n (candidates ?put)) ?put"
    using enforceCacheLimits_char [of ?put] by blast
  let ?vs = "take n (candidates ?put)"
  from assms(1) have d: "distinct (map fst (cache ?put))"
    by (simp add: AList.distinct_update)
  from assms(2,4) have m: "map_of (cache ?put) A = Some item"
    by (simp add: AList.update_conv')
  then have "(A, item) \<in> set (cache ?put)" by (rule map_of_SomeD)
  with d assms(3) have "fst (A, item) \<notin> fst ` set ?vs"
    by (intro pending_not_victim) simp_all
  then have notin: "A \<notin> set (map fst ?vs)" by simp
  with m have "map_of (cache (setCacheItem key it s)) A = Some item"
    by (simp add: setCacheItem_put eq map_of_filter_keys)
  moreover have "sessionQueues (setCacheItem key it s) =
               map (\<lambda>(sessionId, queue). (sessionId, fold remove1 (map fst ?vs) queue))
                   (sessionQueues s)"
    by (simp add: setCacheItem_put eq)
  ultimately show ?thesis using notin by blast
qed

lemma map_of_map_queues:
  "map_of (map (\<lambda>(sessionId, queue). (sessionId, f queue)) qs) k = map_option f (map_of qs k)"
  by (induction qs) auto

lemma preload_enqueues:
  assumes d: "distinct (map fst (cache s))"
    and q: "map_of (sessionQueues s) sessionId = Some queue"
    and A: "A \<in> set queue" "map_of (cache s) A = Some item" "status item = Pending"
    and B: "B = generateKey a b c d" "B \<notin> set queue" "\<not> has_key (cache s) B"
  shows "\<exists>q'. map_of (sessionQueues (snd (preloadWithSettings a b c d sessionId now Returns s)))
                 sessionId = Some (q' @ [B])
           \<and> A \<in> set q' \<and> B \<notin> set q'
           \<and> map_of (cache (snd (preloadWithSettings a b c d sessionId now Returns s))) A
               = Some item"
proof -
  let ?p = "length (calls s)"
  let ?s2 = "(new_call Chained a b c d s)\<lparr>pendingPromises :=
               AList.update B ?p (pendingPromises (new_call Chained a b c d s))\<rparr>"
  let ?s3 = "setCacheItem B (pending_item ?p now) ?s2"
  have c2: "cache ?s2 = cache s" "sessionQueues ?s2 = sessionQueues s"
    by (simp_all add: new_call_def)
  from A(2) B(3) have ne: "A \<noteq> B" by (auto simp: has_key_def)
  from d A(2,3) ne c2 obtain ks where ks: "A \<notin> set ks"
    and m: "map_of (cache ?s3) A = Some item"
    and qs: "sessionQueues ?s3 =
               map (\<lambda>(sessionId, queue). (sessionId, fold remove1 ks queue)) (sessionQueues s)"
    using setCacheItem_keeps_pending [of ?s2 A item B "pending_item ?p now"] by auto
  let ?q' = "fold remove1 ks queue"
  from qs q have q3: "map_of (sessionQueues ?s3) sessionId = Some ?q'"
    by (simp add: map_of_map_queues)
  then have hk: "has_key (sessionQueues ?s3) sessionId" by (simp add: has_key_def)
  have pre: "snd (preloadWithSettings a b c d sessionId now Returns s) =
               ?s3\<lparr>sessionQueues :=
                     AList.map_entry sessionId (\<lambda>queue. queue @ [B]) (sessionQueues ?s3)\<rparr>"
    using B(1,3) hk by (simp add: preloadWithSettings_def Let_def)
  have 1: "map_of (sessionQueues (snd (preloadWithSettings a b c d sessionId now Returns s)))
             sessionId = Some (?q' @ [B])"
    using q3 by (simp add: pre AList.map_of_map_entry)
  have 2: "A \<in> set ?q'" using A(1) ks by (rule in_fold_remove1)
  have 3: "B \<notin> set ?q'" using B(2) set_fold_remove1 [of ks queue] by auto
  have 4: "map_of (cache (snd (preloadWithSettings a b c d sessionId now Returns s))) A
             = Some item"
    using m by (simp add: pre)
  from 1 2 3 4 show ?thesis by blast
qed

lemma pending_inv_frame:
  "cache s' = cache s \<Longrightarrow> calls s' = calls s \<Longrightarrow> pending_inv s' = pending_inv s"
  by (simp add: pending_inv_def)

lemma pending_inv_new_call: "pending_inv s \<Longrightarrow> pending_inv (new_call kind a b c d s)"
  by (auto simp: pending_inv_def new_call_def nth_append)

lemma set_update_subset: "set (AList.update k v al) \<subseteq> insert (k, v) (set al)"
  by (induction al) auto

lemma set_cache_setCacheItem:
  "set (cache (setCacheItem key item s)) \<subseteq> insert (key, item) (set (cache s))"
proof -
  let ?put = "s\<lparr>cache := AList.update key item (cache s),
          currentSize := currentSize s
            - (case map_of (cache s) key of Some oldItem \<Rightarrow> size_bytes oldItem | None \<Rightarrow> 0)
            + size_bytes item\<rparr>"
  obtain n where "enforceCacheLimits ?put = remove_entries (take n (candidates ?put)) ?put"
    using enforceCacheLimits_char [of ?put] by blast
  then have "set (cache (setCacheItem key item s)) \<subseteq> set (AList.update key item (cache s))"
    by (auto simp: setCacheItem_put)
  with set_update_subset [of key item "cache s"] show ?thesis by blast
qed

lemma pending_inv_setCacheItem:
  assumes "pending_inv s"
    and "status item = Pending \<longrightarrow>
           promise item < length (calls s) \<and> c_settled (calls s ! promise item) = None
           \<and> call_static (calls s ! promise item) = (Chained, key)"
  shows "pending_inv (setCacheItem key item s)"
  unfolding pending_inv_def
proof (intro ballI impI)
  fix e assume e: "e \<in> set (cache (setCacheItem key item s))" "status (snd e) = Pending"
  with set_cache_setCacheItem [of key item s] have "e = (key, item) \<or> e \<in> set (cache s)"
    by auto
  with assms e(2)
  show "promise (snd e) < length (calls (setCacheItem key item s))
        \<and> c_settled (calls (setCacheItem key item s) ! promise (snd e)) = None
        \<and> call_static (calls (setCacheItem key item s) ! promise (snd e)) = (Chained, fst e)"
    by (auto simp: pending_inv_def)
qed

lemma pending_inv_updates [simp]:
  "pending_inv (s\<lparr>tasks := ts\<rparr>) = pending_inv s"
  "pending_inv (s\<lparr>sessionQueues := q\<rparr>) = pending_inv s"
  "pending_inv (s\<lparr>sessionSettings := ss\<rparr>) = pending_inv s"
  "pending_inv (s\<lparr>pendingPromises := pp\<rparr>) = pending_inv s"
  "pending_inv (warn msg s) = pending_inv s"
  "pending_inv (log_error msg s) = pending_inv s"
  "pending_inv (snd (withTimeout outcome s)) = pending_inv s"
  "pending_inv (finish r c) = pending_inv (snd c)"
  by (simp_all add: pending_inv_def warn_def log_error_def finish_def)

lemma pending_inv_simple [simp]:
  "pending_inv (initialize f a b c s) = pending_inv s"
  "pending_inv (uninitialize s)"
  "pending_inv (snd (getCacheStats s)) = pending_inv s"
  "pending_inv (snd (hasCompletedItem sv l v t s)) = pending_inv s"
  "pending_inv (snd (hasPending sv l v t s)) = pending_inv s"
  "pending_inv (setSessionSettings sid sv l v s) = pending_inv s"
  by (simp_all add: pending_inv_def initialize_def Let_def uninitialize_def getCacheStats_def
      hasCompletedItem_def hasPending_def setSessionSettings_def warn_def split: option.splits)

lemma pending_inv_preloadWithSettings:
  assumes "pending_inv s"
  shows "pending_inv (snd (preloadWithSettings a b c d sessionId now tts s))"
proof (cases "has_key (cache s) (generateKey a b c d)")
  case True
  with assms show ?thesis by (simp add: preloadWithSettings_def)
next
  case False
  let ?key = "generateKey a b c d"
  let ?p = "length (calls s)"
  let ?s2 = "(new_call Chained a b c d s)\<lparr>pendingPromises :=
               AList.update ?key ?p (pendingPromises (new_call Chained a b c d s))\<rparr>"
  from assms have "pending_inv ?s2" by (simp add: pending_inv_new_call)
  moreover have "promise (pending_item ?p now) < length (calls ?s2)
           \<and> c_settled (calls ?s2 ! promise (pending_item ?p now)) = None
           \<and> call_static (calls ?s2 ! promise (pending_item ?p now)) = (Chained, ?key)"
    by (simp add: pending_item_def new_call_def call_static_def call_key_def)
  ultimately have "pending_inv (setCacheItem ?key (pending_item ?p now) ?s2)"
    by (intro pending_inv_setCacheItem) simp_all
  with False assms show ?thesis
    by (cases tts) (simp_all add: preloadWithSettings_def Let_def pending_inv_new_call)
qed

lemma pending_inv_preloadTTS:
  "pending_inv s \<Longrightarrow> pending_inv (snd (preloadTTS t sessionId now tts s))"
  by (simp add: preloadTTS_def pending_inv_preloadWithSettings split: option.splits)

lemma pending_inv_requestTTS:
  "pending_inv s \<Longrightarrow> pending_inv (requestTTS a b c d sessionId now tts s)"
  by (simp add: requestTTS_def Let_def split_def pending_inv_preloadWithSettings
      split: signal.splits)

lemma pending_inv_resume: "pending_inv s \<Longrightarrow> pending_inv (resume r now tts s)"
  by (simp add: resume_def after_barrier_def item_awaited_def direct_awaited_def Let_def
      try_catch_def outer_catch_def inner_catch_def direct_body_def await_value_def
      pending_inv_new_call pending_inv_setCacheItem completed_item_def
      split: task.splits option.splits settled.splits tts_call.splits)

lemma pending_inv_set_settled:
  assumes "pending_inv s"
    and "\<forall>e\<in>set (cache s). status (snd e) = Pending \<longrightarrow> promise (snd e) \<noteq> p"
  shows "pending_inv (set_settled p v s)"
  unfolding pending_inv_def
proof (intro ballI impI)
  fix e assume e: "e \<in> set (cache (set_settled p v s))" "status (snd e) = Pending"
  then have in_s: "e \<in> set (cache s)" by (simp add: set_settled_def)
  with assms(2) e(2) have ne: "p \<noteq> promise (snd e)" by auto
  from assms(1) in_s e(2) have "promise (snd e) < length (calls s)
        \<and> c_settled (calls s ! promise (snd e)) = None
        \<and> call_static (calls s ! promise (snd e)) = (Chained, fst e)"
    by (simp add: pending_inv_def)
  with ne show "promise (snd e) < length (calls (set_settled p v s))
        \<and> c_settled (calls (set_settled p v s) ! promise (snd e)) = None
        \<and> call_static (calls (set_settled p v s) ! promise (snd e)) = (Chained, fst e)"
    by (simp add: set_settled_def)
qed

lemma pending_inv_settle:
  assumes inv: "size_inv s" "pending_inv s"
  shows "pending_inv (settle p outcome now s)"
proof (cases "p < length (calls s) \<and> c_settled (calls s ! p) = None")
  case False
  with inv show ?thesis by (auto simp: settle_def)
next
  case True
  let ?s1 = "snd (withTimeout outcome s)"
  have inv1: "pending_inv ?s1" "size_inv ?s1" using inv by (simp_all add: size_inv_withTimeout)
  show ?thesis
  proof (cases "c_kind (calls s ! p)")
    case Threw
    with True inv show ?thesis by (simp add: settle_def Let_def split_def)
  next
    case Direct
    have "\<forall>e\<in>set (cache ?s1). status (snd e) = Pending \<longrightarrow> promise (snd e) \<noteq> p"
      using inv(2) Direct by (auto simp: pending_inv_def call_static_def)
    with inv1(1) have "pending_inv (set_settled p (fst (withTimeout outcome s)) ?s1)"
      by (rule pending_inv_set_settled)
    with True Direct show ?thesis by (simp add: settle_def Let_def split_def)
  next
    case Chained
    let ?key = "call_key (calls s ! p)"
    obtain item v where item: "status item \<noteq> Pending"
      and eq: "settle p outcome now s = set_settled p v (setCacheItem ?key item ?s1)"
    proof (cases "fst (withTimeout outcome s)")
      case (Fulfilled res)
      show ?thesis
      proof (cases res)
        case None
        with Fulfilled True Chained that [of "error_item p now" "Fulfilled None"] show ?thesis
          by (simp add: settle_def Let_def split_def chain_settled_def call_key_def error_item_def)
      next
        case (Some r)
        with Fulfilled True Chained that [of "completed_item p r now" "Fulfilled (Some r)"]
        show ?thesis
          by (simp add: settle_def Let_def split_def chain_settled_def call_key_def
              completed_item_def)
      qed
    next
      case Rejected
      with True Chained that [of "error_item p now" "Fulfilled None"] show ?thesis
        by (simp add: settle_def Let_def split_def chain_settled_def call_key_def error_item_def)
    qed
    let ?s2 = "setCacheItem ?key item ?s1"
    from inv1(1) item have p2: "pending_inv ?s2" by (intro pending_inv_setCacheItem) simp_all
    from inv1(2) have "size_inv ?s2" by (rule setCacheItem_size_inv)
    then have d2: "distinct (map fst (cache ?s2))" by (simp add: size_inv_def)
    have "\<forall>e\<in>set (cache ?s2). status (snd e) = Pending \<longrightarrow> promise (snd e) \<noteq> p"
    proof (intro ballI impI notI)
      fix e assume e: "e \<in> set (cache ?s2)" "status (snd e) = Pending" "promise (snd e) = p"
      with p2 have "call_static (calls ?s2 ! p) = (Chained, fst e)"
        by (auto simp: pending_inv_def)
      then have "fst e = ?key" by (simp add: call_static_def)
      with e(1) have "(?key, snd e) \<in> set (cache ?s2)" by (metis prod.collapse)
      with d2 have "map_of (cache ?s2) ?key = Some (snd e)" by simp
      with map_of_setCacheItem_same [of ?key item ?s1] have "snd e = item" by auto
      with item e(2) show False by simp
    qed
    with p2 show ?thesis unfolding eq by (rule pending_inv_set_settled)
  qed
qed

lemma cache_preloadWithSettings_subset:
  "set (cache (snd (preloadWithSettings a b c d sessionId now tts s)))
     \<subseteq> insert (generateKey a b c d, pending_item (length (calls s)) now) (set (cache s))"
proof (cases "has_key (cache s) (generateKey a b c d)")
  case True
  then show ?thesis by (auto simp: preloadWithSettings_def)
next
  case False
  let ?s2 = "(new_call Chained a b c d s)\<lparr>pendingPromises :=
               AList.update (generateKey a b c d) (length (calls s))
                 (pendingPromises (new_call Chained a b c d s))\<rparr>"
  have "cache ?s2 = cache s" by (simp add: new_call_def)
  with set_cache_setCacheItem
         [of "generateKey a b c d" "pending_item (length (calls s)) now" ?s2] False
  show ?thesis
    by (cases tts) (auto simp: preloadWithSettings_def Let_def new_call_def)
qed

text \<open>
  After the test of \<open>initialized\<close>, \<open>requestTTS\<close> assigns the settings and the
  queue of the session, calls \<open>preloadWithSettings\<close> or not, and adds one task.
\<close>

lemma requestTTS_shape:
  assumes "initialized s"
  shows "\<exists>s3 t.
           (s3 = (if \<not> has_key (sessionQueues (setSessionSettings sessionId a b c s)) sessionId
                  then (setSessionSettings sessionId a b c s)
                         \<lparr>sessionQueues :=
                            AList.update sessionId []
                              (sessionQueues (setSessionSettings sessionId a b c s))\<rparr>
                  else setSessionSettings sessionId a b c s)
            \<or> s3 = snd (preloadWithSettings a b c d sessionId now tts
                     (if \<not> has_key (sessionQueues (setSessionSettings sessionId a b c s)) sessionId
                      then (setSessionSettings sessionId a b c s)
                             \<lparr>sessionQueues :=
                                AList.update sessionId []
                                  (sessionQueues (setSessionSettings sessionId a b c s))\<rparr>
                      else setSessionSettings sessionId a b c s)))
           \<and> requestTTS a b c d sessionId now tts s = s3\<lparr>tasks := tasks s @ [t]\<rparr>"
proof -
  let ?s1 = "setSessionSettings sessionId a b c s"
  let ?s2 = "if \<not> has_key (sessionQueues ?s1) sessionId
             then ?s1\<lparr>sessionQueues := AList.update sessionId [] (sessionQueues ?s1)\<rparr>
             else ?s1"
  let ?q = "case map_of (sessionQueues ?s2) sessionId of Some q \<Rightarrow> q | None \<Rightarrow> []"
  let ?r = "if generateKey a b c d \<notin> set ?q
            then preloadWithSettings a b c d sessionId now tts ?s2 else (Return, ?s2)"
  let ?t = "case fst ?r of Throw \<Rightarrow> Thrown
            | Return \<Rightarrow> AtBarrier a b c d
                 (waitForPrecedingItems sessionId (generateKey a b c d) (snd ?r))"
  have t: "tasks (snd ?r) = tasks s" by simp
  have "requestTTS a b c d sessionId now tts s = (snd ?r)\<lparr>tasks := tasks (snd ?r) @ [?t]\<rparr>"
    unfolding requestTTS_def Let_def split_def using assms
    by (cases "fst ?r") simp_all
  then have eq: "requestTTS a b c d sessionId now tts s = (snd ?r)\<lparr>tasks := tasks s @ [?t]\<rparr>"
    unfolding t .
  have "snd ?r = ?s2 \<or> snd ?r = snd (preloadWithSettings a b c d sessionId now tts ?s2)"
    by simp
  with eq show ?thesis by blast
qed

lemma request_keeps_terminal:
  assumes d: "distinct (map fst (cache s))"
    and A: "A \<noteq> generateKey a b c d"
    and t: "\<forall>it. map_of (cache s) A = Some it \<longrightarrow> status it \<noteq> Pending"
    and m: "map_of (cache (requestTTS a b c d sessionId now tts s)) A = Some it"
  shows "status it \<noteq> Pending"
proof (cases "initialized s")
  case False
  with m have "map_of (cache s) A = Some it" by (simp add: requestTTS_def Let_def warn_def)
  with t show ?thesis by blast
next
  case True
  let ?s1 = "setSessionSettings sessionId a b c s"
  let ?s2 = "if \<not> has_key (sessionQueues ?s1) sessionId
             then ?s1\<lparr>sessionQueues := AList.update sessionId [] (sessionQueues ?s1)\<rparr>
             else ?s1"
  have c2: "cache ?s2 = cache s" by (simp add: setSessionSettings_def warn_def)
  from requestTTS_shape [OF True, of sessionId a b c d now tts] obtain s3 t' where
    s3: "s3 = ?s2 \<or> s3 = snd (preloadWithSettings a b c d sessionId now tts ?s2)"
    and eq: "requestTTS a b c d sessionId now tts s = s3\<lparr>tasks := tasks s @ [t']\<rparr>"
    by blast
  from eq have "cache (requestTTS a b c d sessionId now tts s) = cache s3" by simp
  with s3 c2 have "cache (requestTTS a b c d sessionId now tts s) = cache s
        \<or> cache (requestTTS a b c d sessionId now tts s)
            = cache (snd (preloadWithSettings a b c d sessionId now tts ?s2))"
    by auto
  with cache_preloadWithSettings_subset [of a b c d sessionId now tts ?s2] c2
  have "set (cache (requestTTS a b c d sessionId now tts s))
          \<subseteq> insert (generateKey a b c d, pending_item (length (calls ?s2)) now) (set (cache s))"
    by auto
  moreover from m have "(A, it) \<in> set (cache (requestTTS a b c d sessionId now tts s))"
    by (rule map_of_SomeD)
  ultimately have "(A, it) \<in> set (cache s)" using A by auto
  with d have "map_of (cache s) A = Some it" by simp
  with t show ?thesis by blast
qed

lemma queues_invD:
  "queues_inv s \<Longrightarrow> q \<in> snd ` set (sessionQueues s) \<Longrightarrow>
   distinct q \<and> set q \<subseteq> fst ` set (cache s)"
  unfolding queues_inv_def by blast

lemma queues_inv_remove_entries:
  assumes "queues_inv s"
  shows "queues_inv (remove_entries vs s)"
  unfolding queues_inv_def
proof
  fix q' assume "q' \<in> snd ` set (sessionQueues (remove_entries vs s))"
  then obtain q where q: "q \<in> snd ` set (sessionQueues s)"
    and q': "q' = fold remove1 (map fst vs) q"
    by force
  with assms have "distinct q \<and> set q \<subseteq> fst ` set (cache s)"
    by (intro queues_invD)
  then have dq: "distinct q" and sub: "set q \<subseteq> fst ` set (cache s)" by simp_all
  from dq have "distinct q'" "set q' = set q - set (map fst vs)"
    by (simp_all add: q' fold_remove1_distinct)
  with sub show "distinct q' \<and> set q' \<subseteq> fst ` set (cache (remove_entries vs s))"
    by auto
qed

lemma queues_inv_enforceCacheLimits: "queues_inv s \<Longrightarrow> queues_inv (enforceCacheLimits s)"
proof -
  assume q: "queues_inv s"
  obtain n where "enforceCacheLimits s = remove_entries (take n (candidates s)) s"
    using enforceCacheLimits_char [of s] by blast
  with q show ?thesis by (simp add: queues_inv_remove_entries)
qed

lemma queues_inv_setCacheItem:
  assumes "queues_inv s"
  shows "queues_inv (setCacheItem key item s)"
proof -
  let ?put = "s\<lparr>cache := AList.update key item (cache s),
          currentSize := currentSize s
            - (case map_of (cache s) key of Some oldItem \<Rightarrow> size_bytes oldItem | None \<Rightarrow> 0)
            + size_bytes item\<rparr>"
  from assms have "queues_inv ?put"
    by (auto simp: queues_inv_def AList.dom_update)
  then show ?thesis unfolding setCacheItem_put by (rule queues_inv_enforceCacheLimits)
qed

lemma queues_setCacheItem_shrink:
  assumes "q' \<in> snd ` set (sessionQueues (setCacheItem key item s))"
  shows "\<exists>q\<in>snd ` set (sessionQueues s). set q' \<subseteq> set q"
proof -
  let ?put = "s\<lparr>cache := AList.update key item (cache s),
          currentSize := currentSize s
            - (case map_of (cache s) key of Some oldItem \<Rightarrow> size_bytes oldItem | None \<Rightarrow> 0)
            + size_bytes item\<rparr>"
  obtain n where "enforceCacheLimits ?put = remove_entries (take n (candidates ?put)) ?put"
    using enforceCacheLimits_char [of ?put] by blast
  with assms obtain q where "q \<in> snd ` set (sessionQueues s)"
    and "q' = fold remove1 (map fst (take n (candidates ?put))) q"
    by (force simp: setCacheItem_put)
  with set_fold_remove1 [of "map fst (take n (candidates ?put))" q] show ?thesis by blast
qed

lemma setCacheItem_pending_present:
  assumes "distinct (map fst (cache s))" and "status item = Pending"
  shows "map_of (cache (setCacheItem key item s)) key = Some item"
proof -
  let ?put = "s\<lparr>cache := AList.update key item (cache s),
          currentSize := currentSize s
            - (case map_of (cache s) key of Some oldItem \<Rightarrow> size_bytes oldItem | None \<Rightarrow> 0)
            + size_bytes item\<rparr>"
  obtain n where eq: "enforceCacheLimits ?put = remove_entries (take n (candidates ?put)) ?put"
    using enforceCacheLimits_char [of ?put] by blast
  from assms(1) have d: "distinct (map fst (cache ?put))" by (simp add: AList.distinct_update)
  have m: "map_of (cache ?put) key = Some item" by (simp add: AList.update_conv')
  then have "(key, item) \<in> set (cache ?put)" by (rule map_of_SomeD)
  with d assms(2) have "fst (key, item) \<notin> fst ` set (take n (candidates ?put))"
    by (intro pending_not_victim) simp_all
  with m show ?thesis by (simp add: setCacheItem_put eq map_of_filter_keys)
qed

lemma snd_set_map_entry:
  "snd ` set (AList.map_entry k f xs) \<subseteq> snd ` set xs \<union> f ` snd ` set xs"
  by (induction xs) auto

lemma snd_set_update_empty:
  "snd ` set (AList.update k [] xs) \<subseteq> insert [] (snd ` set xs)"
  by (induction xs) auto

lemma queues_inv_add_queue:
  assumes "queues_inv s"
  shows "queues_inv (s\<lparr>sessionQueues := AList.update sessionId [] (sessionQueues s)\<rparr>)"
  unfolding queues_inv_def
proof
  fix q' assume "q' \<in> snd ` set (sessionQueues
                  (s\<lparr>sessionQueues := AList.update sessionId [] (sessionQueues s)\<rparr>))"
  then have "q' \<in> snd ` set (AList.update sessionId [] (sessionQueues s))" by simp
  with snd_set_update_empty [of sessionId "sessionQueues s"]
  have "q' = [] \<or> q' \<in> snd ` set (sessionQueues s)" by blast
  then show "distinct q' \<and> set q' \<subseteq> fst ` set (cache
                  (s\<lparr>sessionQueues := AList.update sessionId [] (sessionQueues s)\<rparr>))"
  proof
    assume "q' = []"
    then show ?thesis by simp
  next
    assume "q' \<in> snd ` set (sessionQueues s)"
    with assms have "distinct q' \<and> set q' \<subseteq> fst ` set (cache s)" by (rule queues_invD)
    then show ?thesis by simp
  qed
qed

lemma queues_inv_updates [simp]:
  "queues_inv (s\<lparr>tasks := ts\<rparr>) = queues_inv s"
  "queues_inv (s\<lparr>sessionSettings := ss\<rparr>) = queues_inv s"
  "queues_inv (s\<lparr>pendingPromises := pp\<rparr>) = queues_inv s"
  "queues_inv (warn msg s) = queues_inv s"
  "queues_inv (log_error msg s) = queues_inv s"
  "queues_inv (new_call kind a b c d s) = queues_inv s"
  "queues_inv (set_settled p v s) = queues_inv s"
  "queues_inv (snd (withTimeout outcome s)) = queues_inv s"
  "queues_inv (finish r co) = queues_inv (snd co)"
  by (simp_all add: queues_inv_def warn_def log_error_def new_call_def set_settled_def
      finish_def)

lemma queues_inv_simple [simp]:
  "queues_inv (initialize f a b c s) = queues_inv s"
  "queues_inv (uninitialize s)"
  "queues_inv (snd (getCacheStats s)) = queues_inv s"
  "queues_inv (snd (hasCompletedItem sv l v t s)) = queues_inv s"
  "queues_inv (snd (hasPending sv l v t s)) = queues_inv s"
  "queues_inv (setSessionSettings sid sv l v s) = queues_inv s"
  by (simp_all add: queues_inv_def initialize_def Let_def uninitialize_def getCacheStats_def
      hasCompletedItem_def hasPending_def setSessionSettings_def warn_def split: option.splits)

lemma queues_inv_preloadWithSettings:
  assumes d: "distinct (map fst (cache s))" and qi: "queues_inv s"
  shows "queues_inv (snd (preloadWithSettings a b c d sessionId now tts s))"
proof (cases "has_key (cache s) (generateKey a b c d)")
  case True
  with qi show ?thesis by (simp add: preloadWithSettings_def)
next
  case False
  let ?key = "generateKey a b c d"
  let ?p = "length (calls s)"
  let ?s2 = "(new_call Chained a b c d s)\<lparr>pendingPromises :=
               AList.update ?key ?p (pendingPromises (new_call Chained a b c d s))\<rparr>"
  let ?s3 = "setCacheItem ?key (pending_item ?p now) ?s2"
  let ?s4 = "if \<not> has_key (sessionQueues ?s3) sessionId
             then ?s3\<lparr>sessionQueues := AList.update sessionId [] (sessionQueues ?s3)\<rparr>
             else ?s3"
  have c2: "cache ?s2 = cache s" "sessionQueues ?s2 = sessionQueues s"
    by (simp_all add: new_call_def)
  from qi have q2: "queues_inv ?s2" by simp
  then have q3: "queues_inv ?s3" by (rule queues_inv_setCacheItem)
  from False have nk: "?key \<notin> fst ` set (cache s)"
    by (auto simp: has_key_def map_of_eq_None_iff)
  have fresh3: "?key \<notin> set q'" if "q' \<in> snd ` set (sessionQueues ?s3)" for q'
  proof -
    from queues_setCacheItem_shrink [OF that] c2 obtain q where
      "q \<in> snd ` set (sessionQueues s)" "set q' \<subseteq> set q" by auto
    with queues_invD [OF qi, of q] nk show ?thesis by blast
  qed
  from d c2 have "map_of (cache ?s3) ?key = Some (pending_item ?p now)"
    by (intro setCacheItem_pending_present) (simp_all add: pending_item_def)
  then have in3: "?key \<in> fst ` set (cache ?s3)"
    by (metis map_of_SomeD fst_conv image_eqI)
  have q4: "queues_inv ?s4" using q3 by (simp add: queues_inv_add_queue)
  have c4: "cache ?s4 = cache ?s3" by simp
  have fresh4: "?key \<notin> set q'" if "q' \<in> snd ` set (sessionQueues ?s4)" for q'
  proof (cases "has_key (sessionQueues ?s3) sessionId")
    case True
    with that fresh3 show ?thesis by simp
  next
    case False
    with that have "q' \<in> snd ` set (AList.update sessionId [] (sessionQueues ?s3))" by simp
    with snd_set_update_empty [of sessionId "sessionQueues ?s3"]
    have "q' = [] \<or> q' \<in> snd ` set (sessionQueues ?s3)" by blast
    with fresh3 show ?thesis by auto
  qed
  let ?s5 = "?s4\<lparr>sessionQueues :=
          AList.map_entry sessionId (\<lambda>queue. queue @ [?key]) (sessionQueues ?s4)\<rparr>"
  have "queues_inv ?s5"
    unfolding queues_inv_def
  proof
    fix q' assume "q' \<in> snd ` set (sessionQueues ?s5)"
    then have "q' \<in> snd ` set (AList.map_entry sessionId (\<lambda>queue. queue @ [?key])
                                   (sessionQueues ?s4))"
      by simp
    with snd_set_map_entry [of sessionId "\<lambda>queue. queue @ [?key]" "sessionQueues ?s4"]
    have "q' \<in> snd ` set (sessionQueues ?s4)
          \<or> (\<exists>q\<in>snd ` set (sessionQueues ?s4). q' = q @ [?key])"
      by blast
    then have "distinct q' \<and> set q' \<subseteq> fst ` set (cache ?s4)"
    proof
      assume "q' \<in> snd ` set (sessionQueues ?s4)"
      with q4 show ?thesis by (rule queues_invD)
    next
      assume "\<exists>q\<in>snd ` set (sessionQueues ?s4). q' = q @ [?key]"
      then obtain q where q: "q \<in> snd ` set (sessionQueues ?s4)" "q' = q @ [?key]" by blast
      from q4 q(1) have "distinct q \<and> set q \<subseteq> fst ` set (cache ?s4)" by (rule queues_invD)
      with q(2) fresh4 [OF q(1)] in3 c4 show ?thesis by simp
    qed
    then show "distinct q' \<and> set q' \<subseteq> fst ` set (cache ?s5)" by simp
  qed
  with False qi show ?thesis
    by (cases tts) (simp_all add: preloadWithSettings_def Let_def)
qed

lemma queues_inv_preloadTTS:
  "distinct (map fst (cache s)) \<Longrightarrow> queues_inv s \<Longrightarrow>
   queues_inv (snd (preloadTTS t sessionId now tts s))"
  by (simp add: preloadTTS_def queues_inv_preloadWithSettings split: option.splits)

lemma queues_inv_requestTTS:
  assumes d: "distinct (map fst (cache s))" and qi: "queues_inv s"
  shows "queues_inv (requestTTS a b c d sessionId now tts s)"
proof (cases "initialized s")
  case False
  with qi show ?thesis by (simp add: requestTTS_def Let_def)
next
  case True
  let ?s1 = "setSessionSettings sessionId a b c s"
  let ?s2 = "if \<not> has_key (sessionQueues ?s1) sessionId
             then ?s1\<lparr>sessionQueues := AList.update sessionId [] (sessionQueues ?s1)\<rparr>
             else ?s1"
  from qi have "queues_inv ?s1" by simp
  then have q2: "queues_inv ?s2" by (simp add: queues_inv_add_queue)
  from d have d2: "distinct (map fst (cache ?s2))"
    by (simp add: setSessionSettings_def warn_def)
  from d2 q2 have q3: "queues_inv (snd (preloadWithSettings a b c d sessionId now tts ?s2))"
    by (rule queues_inv_preloadWithSettings)
  from requestTTS_shape [OF True, of sessionId a b c d now tts] obtain s3 t where
    s3: "s3 = ?s2 \<or> s3 = snd (preloadWithSettings a b c d sessionId now tts ?s2)"
    and eq: "requestTTS a b c d sessionId now tts s = s3\<lparr>tasks := tasks s @ [t]\<rparr>"
    by blast
  from s3 q2 q3 have "queues_inv s3" by auto
  then show ?thesis by (simp add: eq)
qed

lemma queues_inv_settle: "queues_inv s \<Longrightarrow> queues_inv (settle p outcome now s)"
  by (simp add: settle_def Let_def split_def chain_settled_def queues_inv_setCacheItem
      split: call_kind.splits settled.splits option.splits)

lemma queues_inv_resume: "queues_inv s \<Longrightarrow> queues_inv (resume r now tts s)"
  by (simp add: resume_def after_barrier_def item_awaited_def direct_awaited_def Let_def
      try_catch_def outer_catch_def inner_catch_def direct_body_def await_value_def
      queues_inv_setCacheItem
      split: task.splits option.splits settled.splits tts_call.splits)

lemma queues_inv_step:
  "size_inv s \<Longrightarrow> queues_inv s \<Longrightarrow> queues_inv (step e s)"
  by (cases e)
     (simp_all add: queues_inv_preloadTTS queues_inv_requestTTS queues_inv_settle
        queues_inv_resume size_inv_def)

lemma pending_inv_step: "size_inv s \<Longrightarrow> pending_inv s \<Longrightarrow> pending_inv (step e s)"
  by (cases e)
     (simp_all add: pending_inv_preloadTTS pending_inv_requestTTS pending_inv_settle
        pending_inv_resume)

lemma reachable_inv_step: "reachable_inv s \<Longrightarrow> reachable_inv (step e s)"
  by (simp add: reachable_inv_def size_inv_step pending_inv_step queues_inv_step)

lemma reachable_inv_run: "reachable_inv (run es initial_state)"
proof -
  have "reachable_inv s \<Longrightarrow> reachable_inv (run es s)" for s
    by (induction es arbitrary: s) (simp_all add: reachable_inv_step)
  moreover have "pending_inv initial_state" "queues_inv initial_state"
    by (simp_all add: pending_inv_def queues_inv_def initial_state_def)
  then have "reachable_inv initial_state"
    by (simp add: reachable_inv_def size_inv_initial)
  ultimately show ?thesis by blast
qed

lemma requestTTS_initialized:
  assumes "initialized s" and "map_of (sessionQueues s) sessionId = Some queue"
  shows "requestTTS a b c d sessionId now tts s =
     (let s1 = setSessionSettings sessionId a b c s;
          r3 = (if generateKey a b c d \<notin> set queue
                then preloadWithSettings a b c d sessionId now tts s1 else (Return, s1))
      in (snd r3)\<lparr>tasks := tasks s @
            [case fst r3 of
               Throw \<Rightarrow> Thrown
             | Return \<Rightarrow>
                 AtBarrier a b c d
                   (waitForPrecedingItems sessionId (generateKey a b c d) (snd r3))]\<rparr>)"
  using assms
  by (simp add: requestTTS_def Let_def split_def has_key_def setSessionSettings_def
      split: signal.splits)

lemma takeWhile_neq_snoc: "B \<notin> set q \<Longrightarrow> takeWhile (\<lambda>k. k \<noteq> B) (q @ [B]) = q"
  by (induction q) auto

lemma request_held_back:
  assumes d: "distinct (map fst (cache s))" and init: "initialized s"
    and q: "map_of (sessionQueues s) sessionId = Some queue"
    and A: "A \<in> set (takeWhile (\<lambda>k. k \<noteq> generateKey a b c d) queue)"
    and enq: "generateKey a b c d \<in> set queue \<or> \<not> has_key (cache s) (generateKey a b c d)"
    and item: "map_of (cache s) A = Some item" "status item = Pending"
  shows "held_back (length (tasks s)) (promise item) (requestTTS a b c d sessionId now tts s)"
proof -
  let ?B = "generateKey a b c d"
  let ?s1 = "setSessionSettings sessionId a b c s"
  let ?r3 = "if ?B \<notin> set queue then preloadWithSettings a b c d sessionId now tts ?s1
             else (Return, ?s1)"
  have s1: "cache ?s1 = cache s" "sessionQueues ?s1 = sessionQueues s"
    using init by (simp_all add: setSessionSettings_def)
  have "fst ?r3 = Throw
        \<or> (fst ?r3 = Return
            \<and> promise item \<in> set (waitForPrecedingItems sessionId ?B (snd ?r3)))"
  proof (cases "?B \<in> set queue")
    case True
    with q A item(1) s1 show ?thesis
      using waits_contains [of ?s1 sessionId queue ?B A item] by simp
  next
    case False
    with enq have nk: "\<not> has_key (cache s) ?B" by simp
    show ?thesis
    proof (cases tts)
      case Throws
      with False nk s1 show ?thesis by (simp add: preloadWithSettings_def)
    next
      case Returns
      let ?pre = "preloadWithSettings a b c d sessionId now Returns ?s1"
      from A have Aq: "A \<in> set queue" by (rule set_takeWhileD [THEN conjunct1])
      from d q Aq item False nk s1 obtain q' where
        q': "map_of (sessionQueues (snd ?pre)) sessionId = Some (q' @ [?B])"
        and m: "A \<in> set q'" "?B \<notin> set q'" "map_of (cache (snd ?pre)) A = Some item"
        using preload_enqueues [of ?s1 sessionId queue A item ?B a b c d now] by auto
      from m(2) have "takeWhile (\<lambda>k. k \<noteq> ?B) (q' @ [?B]) = q'"
        by (rule takeWhile_neq_snoc)
      with m(1) have "A \<in> set (takeWhile (\<lambda>k. k \<noteq> ?B) (q' @ [?B]))" by simp
      with q' m(3) have "promise item \<in> set (waitForPrecedingItems sessionId ?B (snd ?pre))"
        using waits_contains [of "snd ?pre" sessionId "q' @ [?B]" ?B A item] by simp
      moreover from nk s1 have "fst ?pre = Return"
        by (simp add: preloadWithSettings_def Let_def)
      ultimately show ?thesis using False Returns by simp
    qed
  qed
  then show ?thesis
    by (auto simp: held_back_def requestTTS_initialized [OF init q] Let_def)
qed

text \<open>
  C1 fails in the code. \<open>requestTTS\<close> announces "Ensure this item is in the
  session queue", and leaves the enqueuing to \<open>preloadWithSettings\<close>, which
  returns before it reaches the queue when the key is in the cache. A key that is
  cached and not in the queue of the session (another session has preloaded it) is
  therefore never enqueued; \<open>waitForPrecedingItems\<close> finds it at index -1 and
  waits for nothing. On session \<open>s2\<close> the request for \<open>z\<close> awaits its
  generation call, the entry of \<open>z\<close> is pending, and the request for \<open>x\<close>,
  issued after it on the same session, has returned.
\<close>

theorem request_overtakes_when_cached_elsewhere:
  "map_of (sessionQueues unqueued_example) ''s2'' = Some [''aws::en::f::z'']
   \<and> map_of (cache unqueued_example) ''aws::en::f::z'' = Some (pending_item 1 3)
   \<and> fst (hasPending ''aws'' ''en'' ''f'' ''z'' unqueued_example)
   \<and> c_settled (calls unqueued_example ! 1) = None
   \<and> map_of (cache unqueued_example) ''aws::en::f::x''
        = Some (completed_item 0 (audio ''X'') 2)
   \<and> tasks unqueued_example = [AwaitItem 1, Returned (Some (audio ''X''))]
   \<and> length (calls unqueued_example) = 2"
proof -
  have 1: "map_of (sessionQueues unqueued_example) ''s2'' = Some [''aws::en::f::z'']"
    by code_simp
  have 2: "map_of (cache unqueued_example) ''aws::en::f::z'' = Some (pending_item 1 3)"
    by code_simp
  have 3: "fst (hasPending ''aws'' ''en'' ''f'' ''z'' unqueued_example)" by code_simp
  have 4: "c_settled (calls unqueued_example ! 1) = None" by code_simp
  have 5: "map_of (cache unqueued_example) ''aws::en::f::x''
        = Some (completed_item 0 (audio ''X'') 2)" by code_simp
  have 6: "tasks unqueued_example = [AwaitItem 1, Returned (Some (audio ''X''))]"
    by code_simp
  have 7: "length (calls unqueued_example) = 2" by code_simp
  from 1 2 3 4 5 6 7 show ?thesis by blast
qed

text \<open>
  What the barrier does guarantee. Let the service be in a state it can reach, with
  \<open>A\<close> in the queue of session \<open>S\<close>, and let \<open>requestTTS\<close> be called on
  \<open>S\<close> for a key \<open>B\<close> that stands behind \<open>A\<close> in the queue, or that is
  in no cache entry, so that this call enqueues it behind \<open>A\<close>. Whatever happens
  afterwards, and in whatever order the generation calls settle: if the request has
  returned, there was a moment before at which the entry of \<open>A\<close> was not pending.
  When the entry of \<open>A\<close> is pending at the time of the call, that moment is the
  settling of the promise it holds, which replaces it by a completed or failed entry
  (the eviction that follows may remove that entry at once). A request on another
  session is not held back: it returns while the preload of the first session is still
  pending.
\<close>

lemma enqueued_request_waits:
  assumes "s = run es0 initial_state" and "initialized s"
    and "map_of (sessionQueues s) sessionId = Some queue"
    and "A \<in> set (takeWhile (\<lambda>k. k \<noteq> generateKey service language voice text) queue)"
    and "generateKey service language voice text \<in> set queue
         \<or> \<not> has_key (cache s) (generateKey service language voice text)"
    and "tasks (run es (requestTTS service language voice text sessionId now tts s))
           ! length (tasks s) = Returned v"
  shows "(\<exists>n\<le>length es.
            \<forall>it. map_of (cache (run (take n es)
                                  (requestTTS service language voice text sessionId now tts s))) A
                   = Some it \<longrightarrow> status it \<noteq> Pending)
       \<and> (\<forall>item. map_of (cache s) A = Some item \<and> status item = Pending \<longrightarrow>
            (\<exists>n<length es. \<exists>outcome t. es ! n = Settle (promise item) outcome t
               \<and> (\<forall>it. map_of (cache (run (take (Suc n) es)
                                      (requestTTS service language voice text sessionId now tts s))) A
                          = Some it \<longrightarrow> status it \<noteq> Pending)))
       \<and> tasks cross_session_example ! 0 = Returned (Some (audio ''F''))
       \<and> map_of (cache cross_session_example) ''aws::en::f::slow'' = Some (pending_item 0 1)"
proof -
  let ?s1 = "requestTTS service language voice text sessionId now tts s"
  from assms(1) have inv: "size_inv s" "pending_inv s"
    using reachable_inv_run [of es0] by (simp_all add: reachable_inv_def)
  from inv(1) have d: "distinct (map fst (cache s))" by (simp add: size_inv_def)
  have pending_case: "\<exists>n<length es. \<exists>outcome t. es ! n = Settle (promise item) outcome t
               \<and> (\<forall>it. map_of (cache (run (take (Suc n) es) ?s1)) A = Some it
                      \<longrightarrow> status it \<noteq> Pending)"
    if item: "map_of (cache s) A = Some item" "status item = Pending" for item
  proof -
    let ?p = "promise item"
    from item(1) have "(A, item) \<in> set (cache s)" by (rule map_of_SomeD)
    with inv(2) item(2) have call: "?p < length (calls s)"
      "c_settled (calls s ! ?p) = None" "call_static (calls s ! ?p) = (Chained, A)"
      by (auto simp: pending_inv_def)
    have hb: "held_back (length (tasks s)) ?p ?s1"
      using d assms(2-5) item by (rule request_held_back)
    then have settled: "is_settled (run es ?s1) ?p"
      using assms(6) by (rule returned_after_settled)
    from call(1,2) have "\<not> is_settled s ?p" by (simp add: is_settled_def settled_of_def)
    then have "\<not> is_settled ?s1 ?p" by simp
    from first_settle [OF this settled] obtain n outcome t where
      n: "n < length es" "es ! n = Settle ?p outcome t"
      and un: "\<not> is_settled (run (take n es) ?s1) ?p"
      by blast
    let ?sn = "run (take n es) ?s1"
    let ?e0 = "RequestTTS service language voice text sessionId now tts"
    have sn: "?sn = run (?e0 # take n es) s" by simp
    from call_static_run [OF call(1), of "?e0 # take n es"]
    have len: "?p < length (calls ?sn)"
      and st: "call_static (calls ?sn ! ?p) = call_static (calls s ! ?p)"
      unfolding sn by blast+
    from st call(3) have kind: "c_kind (calls ?sn ! ?p) = Chained"
      and key: "call_key (calls ?sn ! ?p) = A"
      by (simp_all add: call_static_def)
    from un len have none: "c_settled (calls ?sn ! ?p) = None"
      by (simp add: is_settled_def settled_of_def)
    from n have "take (Suc n) es = take n es @ [Settle ?p outcome t]"
      by (simp add: take_Suc_conv_app_nth)
    then have next_state: "run (take (Suc n) es) ?s1 = settle ?p outcome t ?sn"
      by (simp add: run_snoc)
    have "\<forall>it. map_of (cache (run (take (Suc n) es) ?s1)) A = Some it \<longrightarrow> status it \<noteq> Pending"
      using settle_chained_terminal [OF len none kind, of outcome t] key
      by (simp add: next_state)
    with n show ?thesis by blast
  qed
  have 1: "\<exists>n\<le>length es.
            \<forall>it. map_of (cache (run (take n es) ?s1)) A = Some it \<longrightarrow> status it \<noteq> Pending"
  proof (cases "\<exists>item. map_of (cache s) A = Some item \<and> status item = Pending")
    case True
    then obtain item where "map_of (cache s) A = Some item" "status item = Pending" by blast
    from pending_case [OF this] obtain n where "n < length es"
      "\<forall>it. map_of (cache (run (take (Suc n) es) ?s1)) A = Some it \<longrightarrow> status it \<noteq> Pending"
      by blast
    then show ?thesis by (intro exI [of _ "Suc n"]) simp
  next
    case False
    from assms(4) have "A \<noteq> generateKey service language voice text"
      using set_takeWhileD by fastforce
    with d False have "\<forall>it. map_of (cache ?s1) A = Some it \<longrightarrow> status it \<noteq> Pending"
      using request_keeps_terminal [of s A service language voice "text" sessionId now tts] by blast
    then show ?thesis by (intro exI [of _ 0]) simp
  qed
  have 2: "\<forall>item. map_of (cache s) A = Some item \<and> status item = Pending \<longrightarrow>
            (\<exists>n<length es. \<exists>outcome t. es ! n = Settle (promise item) outcome t
               \<and> (\<forall>it. map_of (cache (run (take (Suc n) es) ?s1)) A = Some it
                      \<longrightarrow> status it \<noteq> Pending))"
    using pending_case by blast
  have 3: "tasks cross_session_example ! 0 = Returned (Some (audio ''F''))" by code_simp
  have 4: "map_of (cache cross_session_example) ''aws::en::f::slow'' = Some (pending_item 0 1)"
    by code_simp
  from 1 2 3 4 show ?thesis by blast
qed

lemma enqueued_request_waits_example:
  "map_of (sessionQueues sequence_example) ''s1''
     = Some [''aws::en::f::First'', ''aws::en::f::Second'', ''aws::en::f::Third'']
   \<and> map_of (cache sequence_example) ''aws::en::f::First'' = Some (pending_item 0 1)
   \<and> tasks (run [Settle 2 (GenResolve (Some (audio ''3''))) 5, Resume 0 6 Returns]
               (requestTTS ''aws'' ''en'' ''f'' ''Third'' ''s1'' 4 Returns sequence_example)) ! 0
       = AtBarrier ''aws'' ''en'' ''f'' ''Third'' [0, 1]
   \<and> tasks (run [Settle 2 (GenResolve (Some (audio ''3''))) 5, Resume 0 6 Returns,
                 Settle 0 (GenResolve (Some (audio ''1''))) 7, Resume 0 8 Returns,
                 Settle 1 (GenResolve (Some (audio ''2''))) 9, Resume 0 10 Returns]
               (requestTTS ''aws'' ''en'' ''f'' ''Third'' ''s1'' 4 Returns sequence_example)) ! 0
       = Returned (Some (audio ''3''))
   \<and> (\<exists>n<length [Settle 2 (GenResolve (Some (audio ''3''))) 5, Resume 0 6 Returns,
                   Settle 0 (GenResolve (Some (audio ''1''))) 7, Resume 0 8 Returns,
                   Settle 1 (GenResolve (Some (audio ''2''))) 9, Resume 0 10 Returns].
        \<exists>outcome t.
          [Settle 2 (GenResolve (Some (audio ''3''))) 5, Resume 0 6 Returns,
           Settle 0 (GenResolve (Some (audio ''1''))) 7, Resume 0 8 Returns,
           Settle 1 (GenResolve (Some (audio ''2''))) 9, Resume 0 10 Returns] ! n
            = Settle (promise (pending_item 0 1)) outcome t)"
proof -
  let ?es = "[Settle 2 (GenResolve (Some (audio ''3''))) 5, Resume 0 6 Returns,
              Settle 0 (GenResolve (Some (audio ''1''))) 7, Resume 0 8 Returns,
              Settle 1 (GenResolve (Some (audio ''2''))) 9, Resume 0 10 Returns]"
  let ?q = "[''aws::en::f::First'', ''aws::en::f::Second'', ''aws::en::f::Third'']"
  let ?s1 = "requestTTS ''aws'' ''en'' ''f'' ''Third'' ''s1'' 4 Returns sequence_example"
  have h1: "sequence_example =
              run [Initialize 1 1000 100 5000, SetSessionSettings ''s1'' ''aws'' ''en'' ''f'',
                   PreloadTTS ''First'' ''s1'' 1 Returns, PreloadTTS ''Second'' ''s1'' 2 Returns,
                   PreloadTTS ''Third'' ''s1'' 3 Returns] initial_state"
    by (rule sequence_example_def)
  have h2: "initialized sequence_example" by code_simp
  have h3: "map_of (sessionQueues sequence_example) ''s1'' = Some ?q" by code_simp
  have h4: "''aws::en::f::First''
              \<in> set (takeWhile (\<lambda>k. k \<noteq> generateKey ''aws'' ''en'' ''f'' ''Third'') ?q)"
    by code_simp
  have h5: "generateKey ''aws'' ''en'' ''f'' ''Third'' \<in> set ?q
            \<or> \<not> has_key (cache sequence_example) (generateKey ''aws'' ''en'' ''f'' ''Third'')"
    by code_simp
  have h6: "map_of (cache sequence_example) ''aws::en::f::First'' = Some (pending_item 0 1)"
    by code_simp
  have h7: "status (pending_item 0 1) = Pending" by code_simp
  have h12: "tasks (run ?es ?s1) ! length (tasks sequence_example) = Returned (Some (audio ''3''))"
    by code_simp
  have w: "tasks (run [Settle 2 (GenResolve (Some (audio ''3''))) 5, Resume 0 6 Returns] ?s1) ! 0
             = AtBarrier ''aws'' ''en'' ''f'' ''Third'' [0, 1]"
    by code_simp
  have r: "tasks (run ?es ?s1) ! 0 = Returned (Some (audio ''3''))" by code_simp
  from enqueued_request_waits [OF h1 h2 h3 h4 h5 h12] h6 h7
  have e: "\<exists>n<length ?es. \<exists>outcome t. ?es ! n = Settle (promise (pending_item 0 1)) outcome t"
    by blast
  from h3 h6 w r e show ?thesis by blast
qed

end
